theory Spec2Isabelle
  imports Main "HOL-Library.Char_ord" "HOL-Library.List_Lexorder"
begin

section \<open>The relevance engine (openmdao/utils/relevance.py)\<close>

subsection \<open>Values\<close>

text \<open>
  Exceptions of the Python code are values. \<open>RuntimeError\<close> carries its message.
\<close>

datatype error =
    KeyError
  | ValueError
  | TypeError
  | IndexError
  | AttributeError
  | AssertionError
  | NameError
  | RuntimeError string

text \<open>
  A relevance array is a boolean numpy vector. An array that the engine has stored
  (in the cache, in a seed map, as a current array, as a nonlinear set) is an object with
  an identity: it lives in the \<open>heap\<close> of the engine under an address, and two
  references denote the same instance iff the addresses are equal. Stored arrays are never
  written again: every in-place operator of the source (\<open>|=\<close>, \<open>&=\<close>) acts on
  an array that was created by \<open>copy()\<close>, \<open>zeros\<close> or a binary operator in the same
  function and has not been stored yet. Such temporaries are plain values here, and an
  array receives its address at the moment the source stores it.
\<close>

type_synonym rel_array = "bool list"
type_synonym addr = nat

text \<open>
  A seed argument is a name (\<open>str\<close>) or a \<open>frozenset\<close> of names. A frozenset is
  given by the list of its members in the order in which the object iterates; as a
  dictionary key it is the set of its members, and a \<open>str\<close> key never equals a
  frozenset key.
\<close>

datatype seeds = Str string | Frozenset "string list"

datatype key = KStr string | KSet "string set"

fun key_of :: "seeds \<Rightarrow> key" where
  "key_of (Str n) = KStr n"
| "key_of (Frozenset ns) = KSet (set ns)"

text \<open>Iterating a \<open>str\<close> yields its characters, each a string of length one.\<close>

fun iter_seeds :: "seeds \<Rightarrow> string list" where
  "iter_seeds (Str n) = map (\<lambda>c. [c]) n"
| "iter_seeds (Frozenset ns) = ns"

text \<open>Truth value of a seed argument: empty strings and empty frozensets are false.\<close>

definition truthy :: "seeds \<Rightarrow> bool" where
  "truthy sd = (iter_seeds sd \<noteq> [])"

text \<open>\<open>frozenset(iterable)\<close>: the members, each once.\<close>

definition frozenset :: "string list \<Rightarrow> seeds" where
  "frozenset ns = Frozenset (remdups ns)"

datatype direction = Fwd | Rev

datatype kind = Var | Sys

text \<open>
  The nested dictionaries \<open>_seed_var_map\<close> and \<open>_seed_sys_map\<close>. The inner
  dictionaries are objects too (the source stores one inner dictionary under two outer
  keys), so the outer dictionary maps a key to the index of an inner dictionary.
\<close>

record seed_map =
  outer :: "key \<rightharpoonup> nat"
  dicts :: "(key \<rightharpoonup> addr) list"

record single_maps =
  fwd_of :: "string \<rightharpoonup> addr"
  rev_of :: "string \<rightharpoonup> addr"

record 'h relevance =
  heap :: "rel_array list"
  rel_array_cache :: "'h \<rightharpoonup> addr"
  active :: "bool option"
  seed_vars :: "seeds \<times> seeds"
  all_seed_vars :: "seeds \<times> seeds"
  seed_var_map :: seed_map
  seed_sys_map :: seed_map
  single_seed2relvars :: single_maps
  single_seed2relsys :: single_maps
  nonlinear_sets :: "string \<rightharpoonup> addr"
  current_rel_varray :: "addr option"
  current_rel_sarray :: "addr option"
  all_systems :: "string list option"
  var2idx :: "(string \<rightharpoonup> nat) option"
  sys2idx :: "(string \<rightharpoonup> nat) option"
  no_dv_responses :: "string list"

subsection \<open>numpy operators on boolean vectors\<close>

text \<open>
  \<open>a |= b\<close> and \<open>a &= b\<close> write into \<open>a\<close>: the shapes must be equal, or
  \<open>b\<close> has length one and is broadcast. \<open>a & b\<close> and \<open>a | b\<close> build a new
  array and broadcast either side. Any other pair of shapes raises \<open>ValueError\<close>.
\<close>

definition inplace :: "(bool \<Rightarrow> bool \<Rightarrow> bool) \<Rightarrow> rel_array \<Rightarrow> rel_array \<Rightarrow> error + rel_array" where
  "inplace f a b =
     (if length b = length a then Inr (map2 f a b)
      else if length b = 1 then Inr (map (\<lambda>x. f x (hd b)) a)
      else Inl ValueError)"

definition binop :: "(bool \<Rightarrow> bool \<Rightarrow> bool) \<Rightarrow> rel_array \<Rightarrow> rel_array \<Rightarrow> error + rel_array" where
  "binop f a b =
     (if length b = length a then Inr (map2 f a b)
      else if length b = 1 then Inr (map (\<lambda>x. f x (hd b)) a)
      else if length a = 1 then Inr (map (\<lambda>y. f (hd a) y) b)
      else Inl ValueError)"

subsection \<open>Sequencing of fallible, stateful steps\<close>

text \<open>
  A method that may raise and that writes to the engine is a function from the state to
  a result (an error or a value) and the state it leaves. \<open>seq\<close> runs a second step on
  the value of the first and stops at the first error; \<open>gets\<close> reads the state,
  \<open>modify\<close> writes it, \<open>lift\<close> embeds a computation without state;
  \<open>for_each\<close> is a \<open>for\<close> loop and \<open>collect\<close> a loop that gathers what its
  body yields.
\<close>

definition seq ::
  "('s \<Rightarrow> (error + 'a) \<times> 's) \<Rightarrow> ('a \<Rightarrow> 's \<Rightarrow> (error + 'b) \<times> 's) \<Rightarrow> 's \<Rightarrow> (error + 'b) \<times> 's" where
  "seq m f s = (case m s of (Inl e, s') \<Rightarrow> (Inl e, s') | (Inr x, s') \<Rightarrow> f x s')"

definition ret :: "'a \<Rightarrow> 's \<Rightarrow> (error + 'a) \<times> 's" where
  "ret x s = (Inr x, s)"

definition raise :: "error \<Rightarrow> 's \<Rightarrow> (error + 'a) \<times> 's" where
  "raise e s = (Inl e, s)"

definition lift :: "error + 'a \<Rightarrow> 's \<Rightarrow> (error + 'a) \<times> 's" where
  "lift r s = (r, s)"

definition gets :: "('s \<Rightarrow> 'a) \<Rightarrow> 's \<Rightarrow> (error + 'a) \<times> 's" where
  "gets f s = (Inr (f s), s)"

definition modify :: "('s \<Rightarrow> 's) \<Rightarrow> 's \<Rightarrow> (error + unit) \<times> 's" where
  "modify g s = (Inr (), g s)"

fun for_each :: "('x \<Rightarrow> 's \<Rightarrow> (error + unit) \<times> 's) \<Rightarrow> 'x list \<Rightarrow> 's \<Rightarrow> (error + unit) \<times> 's" where
  "for_each body [] = ret ()"
| "for_each body (x # xs) = seq (body x) (\<lambda>_. for_each body xs)"

fun collect ::
  "('x \<Rightarrow> 's \<Rightarrow> (error + 'y list) \<times> 's) \<Rightarrow> 'x list \<Rightarrow> 's \<Rightarrow> (error + 'y list) \<times> 's" where
  "collect f [] = ret []"
| "collect f (x # xs) = seq (f x) (\<lambda>ys. seq (collect f xs) (\<lambda>zs. ret (ys @ zs)))"

subsection \<open>The array cache\<close>

text \<open>
  \<open>array_hash\<close> is imported from \<open>openmdao.utils.array_utils\<close>; it is the
  parameter \<open>H\<close> of every function that reaches the cache. \<open>get_cached_array\<close> is
  \<open>_get_cached_array\<close> applied to a temporary, which is stored on a miss;
  \<open>get_cached_ref\<close> is the method applied to an array that is stored already: on a
  miss the instance itself enters the cache.
\<close>

definition get_cached_array ::
  "(rel_array \<Rightarrow> 'h) \<Rightarrow> rel_array \<Rightarrow> 'h relevance \<Rightarrow> (error + addr) \<times> 'h relevance" where
  "get_cached_array H arr s =
     (case rel_array_cache s (H arr) of
        Some a \<Rightarrow> (Inr a, s)
      | None \<Rightarrow>
          (Inr (length (heap s)),
           s\<lparr>heap := heap s @ [arr],
             rel_array_cache := (rel_array_cache s)(H arr \<mapsto> length (heap s))\<rparr>))"

definition get_cached_ref ::
  "(rel_array \<Rightarrow> 'h) \<Rightarrow> addr \<Rightarrow> 'h relevance \<Rightarrow> (error + addr) \<times> 'h relevance" where
  "get_cached_ref H a s =
     (case rel_array_cache s (H (heap s ! a)) of
        Some a' \<Rightarrow> (Inr a', s)
      | None \<Rightarrow> (Inr a, s\<lparr>rel_array_cache := (rel_array_cache s)(H (heap s ! a) \<mapsto> a)\<rparr>))"

definition array_at :: "addr \<Rightarrow> 'h relevance \<Rightarrow> (error + rel_array) \<times> 'h relevance" where
  "array_at a = gets (\<lambda>s. heap s ! a)"

subsection \<open>Combining the arrays of single seeds\<close>

text \<open>
  \<open>_union_arrays\<close>: the loop copies the first array and ors the others into the copy.
  \<open>seed_map[seed]\<close> raises \<open>KeyError\<close> for a name without an array.
\<close>

fun union_loop :: "rel_array list \<Rightarrow> (string \<rightharpoonup> addr) \<Rightarrow> rel_array \<Rightarrow> string list \<Rightarrow> error + rel_array" where
  "union_loop hp seed_map array [] = Inr array"
| "union_loop hp seed_map array (seed # rest) =
     (case seed_map seed of
        None \<Rightarrow> Inl KeyError
      | Some a \<Rightarrow>
          (case inplace (\<or>) array (hp ! a) of
             Inl e \<Rightarrow> Inl e
           | Inr array' \<Rightarrow> union_loop hp seed_map array' rest))"

definition union_arrays :: "rel_array list \<Rightarrow> (string \<rightharpoonup> addr) \<Rightarrow> seeds \<Rightarrow> error + rel_array" where
  "union_arrays hp seed_map sds =
     (case iter_seeds sds of
        [] \<Rightarrow> Inr []
      | seed # rest \<Rightarrow>
          (case seed_map seed of
             None \<Rightarrow> Inl KeyError
           | Some a \<Rightarrow> union_loop hp seed_map (hp ! a) rest))"

definition combine_relevance ::
  "(rel_array \<Rightarrow> 'h) \<Rightarrow> (string \<rightharpoonup> addr) \<Rightarrow> seeds \<Rightarrow> (string \<rightharpoonup> addr) \<Rightarrow> seeds \<Rightarrow>
   'h relevance \<Rightarrow> (error + addr) \<times> 'h relevance" where
  "combine_relevance H fmap fwd_seeds rmap rev_seeds =
     seq (gets heap) (\<lambda>hp.
     seq (lift (union_arrays hp fmap fwd_seeds)) (\<lambda>farray.
     seq (lift (union_arrays hp rmap rev_seeds)) (\<lambda>rarray.
     seq (lift (inplace (\<and>) farray rarray)) (\<lambda>farray'.
          get_cached_array H farray'))))"

subsection \<open>The seed maps\<close>

definition seed_map_of :: "kind \<Rightarrow> 'h relevance \<Rightarrow> seed_map" where
  "seed_map_of k s = (case k of Var \<Rightarrow> seed_var_map s | Sys \<Rightarrow> seed_sys_map s)"

definition set_seed_map :: "kind \<Rightarrow> seed_map \<Rightarrow> 'h relevance \<Rightarrow> 'h relevance" where
  "set_seed_map k m s = (case k of Var \<Rightarrow> s\<lparr>seed_var_map := m\<rparr> | Sys \<Rightarrow> s\<lparr>seed_sys_map := m\<rparr>)"

definition single_of :: "kind \<Rightarrow> 'h relevance \<Rightarrow> single_maps" where
  "single_of k s = (case k of Var \<Rightarrow> single_seed2relvars s | Sys \<Rightarrow> single_seed2relsys s)"

text \<open>\<open>seed_map[k1][k2]\<close>, \<open>None\<close> where the source raises \<open>KeyError\<close>.\<close>

definition lookup2 :: "seed_map \<Rightarrow> key \<Rightarrow> key \<Rightarrow> addr option" where
  "lookup2 m k1 k2 = (case outer m k1 of None \<Rightarrow> None | Some d \<Rightarrow> (dicts m ! d) k2)"

text \<open>\<open>seed_map[k1] = {}\<close>: a new inner dictionary.\<close>

definition new_dict :: "key \<Rightarrow> seed_map \<Rightarrow> seed_map" where
  "new_dict k1 m = m\<lparr>outer := (outer m)(k1 \<mapsto> length (dicts m)), dicts := dicts m @ [Map.empty]\<rparr>"

text \<open>\<open>if k1 not in seed_map: seed_map[k1] = {}\<close>.\<close>

definition ensure_dict :: "key \<Rightarrow> seed_map \<Rightarrow> seed_map" where
  "ensure_dict k1 m = (if outer m k1 = None then new_dict k1 m else m)"

text \<open>Writing into an inner dictionary, and \<open>seed_map[k1][k2] = a\<close> for a key \<open>k1\<close> that is present.\<close>

definition dict_store :: "nat \<Rightarrow> key \<Rightarrow> addr \<Rightarrow> seed_map \<Rightarrow> seed_map" where
  "dict_store d k2 a m = m\<lparr>dicts := (dicts m)[d := (dicts m ! d)(k2 \<mapsto> a)]\<rparr>"

definition store2 :: "key \<Rightarrow> key \<Rightarrow> addr \<Rightarrow> seed_map \<Rightarrow> seed_map" where
  "store2 k1 k2 a m = (case outer m k1 of None \<Rightarrow> m | Some d \<Rightarrow> dict_store d k2 a m)"

definition get_rel_array ::
  "(rel_array \<Rightarrow> 'h) \<Rightarrow> kind \<Rightarrow> seeds \<Rightarrow> seeds \<Rightarrow> 'h relevance \<Rightarrow> (error + addr) \<times> 'h relevance" where
  "get_rel_array H k fwd_seeds rev_seeds =
     seq (gets (\<lambda>s. lookup2 (seed_map_of k s) (key_of fwd_seeds) (key_of rev_seeds))) (\<lambda>found.
       case found of
         Some a \<Rightarrow> ret a
       | None \<Rightarrow>
           seq (gets (single_of k)) (\<lambda>single_seed2rel.
           seq (combine_relevance H (fwd_of single_seed2rel) fwd_seeds
                  (rev_of single_seed2rel) rev_seeds) (\<lambda>relarr.
           seq (modify (\<lambda>s. set_seed_map k
                  (store2 (key_of fwd_seeds) (key_of rev_seeds) relarr
                     (ensure_dict (key_of fwd_seeds) (seed_map_of k s))) s)) (\<lambda>_.
                ret relarr))))"

definition set_seeds ::
  "(rel_array \<Rightarrow> 'h) \<Rightarrow> seeds \<Rightarrow> seeds \<Rightarrow> 'h relevance \<Rightarrow> (error + unit) \<times> 'h relevance" where
  "set_seeds H fwd_seeds rev_seeds =
     seq (modify (\<lambda>s. s\<lparr>seed_vars := (fwd_seeds, rev_seeds)\<rparr>)) (\<lambda>_.
       if truthy fwd_seeds \<and> truthy rev_seeds then
         seq (get_rel_array H Var fwd_seeds rev_seeds) (\<lambda>va.
         seq (modify (\<lambda>s. s\<lparr>current_rel_varray := Some va\<rparr>)) (\<lambda>_.
         seq (get_rel_array H Sys fwd_seeds rev_seeds) (\<lambda>sa.
              modify (\<lambda>s. s\<lparr>current_rel_sarray := Some sa\<rparr>))))
       else ret ())"

subsection \<open>Queries\<close>

text \<open>
  \<open>not self._active\<close> holds for \<open>None\<close> and for \<open>False\<close>. In the subscript
  \<open>self._current_rel_varray[self._var2idx[name]]\<close> the index is evaluated before the
  array is subscripted, so a missing name raises \<open>KeyError\<close> even when the array is
  \<open>None\<close>.
\<close>

definition subscript :: "rel_array list \<Rightarrow> addr option \<Rightarrow> nat \<Rightarrow> error + bool" where
  "subscript hp arr i =
     (case arr of
        None \<Rightarrow> Inl TypeError
      | Some a \<Rightarrow> if i < length (hp ! a) then Inr (hp ! a ! i) else Inl IndexError)"

definition index_of :: "(string \<rightharpoonup> nat) option \<Rightarrow> string \<Rightarrow> error + nat" where
  "index_of tbl name =
     (case tbl of
        None \<Rightarrow> Inl AttributeError
      | Some t \<Rightarrow> (case t name of None \<Rightarrow> Inl KeyError | Some i \<Rightarrow> Inr i))"

definition is_relevant :: "string \<Rightarrow> 'h relevance \<Rightarrow> error + bool" where
  "is_relevant name s =
     (if active s \<noteq> Some True then Inr True
      else (case index_of (var2idx s) name of
              Inl e \<Rightarrow> Inl e
            | Inr i \<Rightarrow> subscript (heap s) (current_rel_varray s) i))"

definition is_relevant_system :: "string \<Rightarrow> 'h relevance \<Rightarrow> error + bool" where
  "is_relevant_system name s =
     (if active s \<noteq> Some True then Inr True
      else (case index_of (sys2idx s) name of
              Inl e \<Rightarrow> Inl e
            | Inr i \<Rightarrow> subscript (heap s) (current_rel_sarray s) i))"

subsection \<open>Scoped activation\<close>

text \<open>
  A context manager is a pair of functions: \<open>enter\<close> runs the generator up to its
  \<open>yield\<close> and returns what the generator has saved in its local variables; \<open>exit\<close>
  runs the \<open>finally\<close> block, on a normal and on an abnormal exit of the body alike.
  \<open>Unchanged\<close> is the branch whose \<open>yield\<close> is outside any \<open>try\<close>.
\<close>

datatype 'a saved = Unchanged | Saved 'a

definition active_enter :: "bool \<Rightarrow> 'h relevance \<Rightarrow> bool option saved \<times> 'h relevance" where
  "active_enter b s =
     (if active s \<noteq> Some True then (Unchanged, s)
      else (Saved (active s), s\<lparr>active := Some b\<rparr>))"

definition active_exit :: "bool option saved \<Rightarrow> 'h relevance \<Rightarrow> 'h relevance" where
  "active_exit sv s = (case sv of Unchanged \<Rightarrow> s | Saved a \<Rightarrow> s\<lparr>active := a\<rparr>)"

text \<open>
  \<open>seeds_active\<close> and \<open>all_seeds_active\<close> call \<open>_set_seeds\<close> before the
  \<open>try\<close>: an exception there leaves the generator without running \<open>finally\<close>.
\<close>

definition seeds_active_enter ::
  "(rel_array \<Rightarrow> 'h) \<Rightarrow> string list option \<Rightarrow> string list option \<Rightarrow> 'h relevance \<Rightarrow>
   (error + ((seeds \<times> seeds) \<times> bool option) saved) \<times> 'h relevance" where
  "seeds_active_enter H fwd_seeds rev_seeds =
     seq (gets (\<lambda>s. (seed_vars s, active s, all_seed_vars s))) (\<lambda>(save, save_active, all_seeds).
       if save_active = Some False then ret Unchanged
       else
         seq (modify (\<lambda>s. s\<lparr>active := Some True\<rparr>)) (\<lambda>_.
         seq (set_seeds H
                (case fwd_seeds of None \<Rightarrow> fst all_seeds | Some ns \<Rightarrow> frozenset ns)
                (case rev_seeds of None \<Rightarrow> snd all_seeds | Some ns \<Rightarrow> frozenset ns)) (\<lambda>_.
              ret (Saved (save, save_active)))))"

definition seeds_active_exit ::
  "((seeds \<times> seeds) \<times> bool option) saved \<Rightarrow> 'h relevance \<Rightarrow> 'h relevance" where
  "seeds_active_exit sv s =
     (case sv of
        Unchanged \<Rightarrow> s
      | Saved (save, save_active) \<Rightarrow> s\<lparr>seed_vars := save, active := save_active\<rparr>)"

definition all_seeds_active_enter ::
  "(rel_array \<Rightarrow> 'h) \<Rightarrow> 'h relevance \<Rightarrow>
   (error + ((seeds \<times> seeds) \<times> bool option) saved) \<times> 'h relevance" where
  "all_seeds_active_enter H =
     seq (gets (\<lambda>s. (seed_vars s, active s, all_seed_vars s))) (\<lambda>(save, save_active, all_seeds).
       if save_active = Some False then ret Unchanged
       else
         seq (modify (\<lambda>s. s\<lparr>active := Some True\<rparr>)) (\<lambda>_.
         seq (set_seeds H (fst all_seeds) (snd all_seeds)) (\<lambda>_.
              ret (Saved (save, save_active)))))"

definition all_seeds_active_exit ::
  "((seeds \<times> seeds) \<times> bool option) saved \<Rightarrow> 'h relevance \<Rightarrow> 'h relevance" where
  "all_seeds_active_exit sv s = seeds_active_exit sv s"

definition activate_nonlinear_enter ::
  "string \<Rightarrow> bool \<Rightarrow> 'h relevance \<Rightarrow> bool option saved \<times> 'h relevance" where
  "activate_nonlinear_enter name act s =
     (if \<not> act \<or> active s = Some False \<or> nonlinear_sets s name = None then (Unchanged, s)
      else (Saved (active s),
            s\<lparr>active := Some True, current_rel_sarray := nonlinear_sets s name\<rparr>))"

definition activate_nonlinear_exit :: "bool option saved \<Rightarrow> 'h relevance \<Rightarrow> 'h relevance" where
  "activate_nonlinear_exit sv s = (case sv of Unchanged \<Rightarrow> s | Saved a \<Rightarrow> s\<lparr>active := a\<rparr>)"

subsection \<open>What the constructor reads from the model\<close>

text \<open>
  The metadata of a design variable or response, and the part of the top-level group that
  \<open>Relevance.__init__\<close> reads. The dataflow graph enters through the enumeration of its
  variable and system names (\<open>all_vars\<close> and \<open>all_systems\<close> of \<open>_set_all_seeds\<close>,
  in the order in which the two Python sets enumerate), through the attributes of its
  nodes, and through the result of the walk \<open>_dependent_nodes\<close>: for a start node, a
  direction and the \<open>local\<close> flag, \<open>dependent_vars\<close> lists \<open>depnodes - all_systems\<close>
  and \<open>dependent_systems\<close> lists \<open>_vars2systems(depnodes)\<close>. \<open>ancestors\<close> is
  \<open>all_ancestors\<close> of \<open>openmdao.utils.general_utils\<close>, \<open>allgather\<close> the collective
  of the communicator. The three component sets are the attributes of the model after
  \<open>_setup_nonlinear_relevance\<close>.
\<close>

record meta =
  source :: string
  parallel_deriv_color :: "string option"

datatype io = Input | Output

record model =
  pathname :: string
  comm_size :: nat
  mode :: string
  graph_vars :: "string list"
  graph_systems :: "string list"
  node_type :: "string \<rightharpoonup> io"
  node_local :: "string \<rightharpoonup> bool"
  dependent_vars :: "string \<Rightarrow> direction \<Rightarrow> bool \<Rightarrow> string list"
  dependent_systems :: "string \<Rightarrow> direction \<Rightarrow> bool \<Rightarrow> string list"
  pre_components :: "string list"
  post_components :: "string list"
  iterated_contains_all :: bool
  ancestors :: "string \<Rightarrow> string list"
  allgather :: "(string \<times> string list) list \<Rightarrow> (string \<times> string list) list list"

text \<open>Dictionaries whose iteration order matters are association lists in insertion order.\<close>

fun od_update :: "'k \<Rightarrow> 'v \<Rightarrow> ('k \<times> 'v) list \<Rightarrow> ('k \<times> 'v) list" where
  "od_update k v [] = [(k, v)]"
| "od_update k v ((k', v') # kvs) = (if k' = k then (k, v) # kvs else (k', v') # od_update k v kvs)"

text \<open>The keys of a dictionary filled from a list of names: each name at its first position.\<close>

fun uniq :: "'a list \<Rightarrow> 'a list" where
  "uniq [] = []"
| "uniq (x # xs) = x # filter (\<lambda>y. y \<noteq> x) (uniq xs)"

definition enumerate_names :: "string list \<Rightarrow> (string \<rightharpoonup> nat)" where
  "enumerate_names ns = map_of (zip ns [0..<length ns])"

subsection \<open>Building relevance arrays from names\<close>

fun lookup_all :: "('k \<rightharpoonup> 'v) \<Rightarrow> 'k list \<Rightarrow> error + 'v list" where
  "lookup_all m [] = Inr []"
| "lookup_all m (k # ks) =
     (case m k of
        None \<Rightarrow> Inl KeyError
      | Some v \<Rightarrow> (case lookup_all m ks of Inl e \<Rightarrow> Inl e | Inr vs \<Rightarrow> Inr (v # vs)))"

definition names2rel_array ::
  "(rel_array \<Rightarrow> 'h) \<Rightarrow> string list \<Rightarrow> nat \<Rightarrow> (string \<rightharpoonup> nat) \<Rightarrow> 'h relevance \<Rightarrow>
   (error + addr) \<times> 'h relevance" where
  "names2rel_array H names n_all names2inds =
     seq (lift (lookup_all names2inds names)) (\<lambda>inds.
       if \<exists>i \<in> set inds. n_all \<le> i then raise IndexError
       else get_cached_array H (map (\<lambda>i. i \<in> set inds) [0..<n_all]))"

text \<open>An attribute that is set only on the active path of \<open>_set_all_seeds\<close>.\<close>

definition attr :: "'a option \<Rightarrow> 's \<Rightarrow> (error + 'a) \<times> 's" where
  "attr x = (case x of None \<Rightarrow> raise AttributeError | Some v \<Rightarrow> ret v)"

subsection \<open>\<open>iter_seed_pair_relevance\<close> and the parallel derivative check\<close>

text \<open>
  \<open>_get_io_filter\<close> returns \<open>False\<close> (no filtering), a predicate on nodes, or
  \<open>True\<close> (everything is filtered out).
\<close>

datatype io_filter = No_filter | Only io | Everything_out

definition get_io_filter :: "bool \<Rightarrow> bool \<Rightarrow> io_filter" where
  "get_io_filter inputs outputs =
     (if inputs \<and> outputs then No_filter
      else if inputs then Only Input
      else if outputs then Only Output
      else Everything_out)"

text \<open>\<open>_rel_names_iter\<close> zips the keys of the index table with the array.\<close>

definition rel_names_iter :: "rel_array \<Rightarrow> string list \<Rightarrow> bool \<Rightarrow> string list" where
  "rel_names_iter rel_arr all_names relevant =
     map fst (filter (\<lambda>(n, rel). rel = relevant) (zip all_names rel_arr))"

fun filter_nodes_iter :: "model \<Rightarrow> string list \<Rightarrow> io \<Rightarrow> error + string list" where
  "filter_nodes_iter M [] t = Inr []"
| "filter_nodes_iter M (n # ns) t =
     (case node_type M n of
        None \<Rightarrow> Inl KeyError
      | Some t' \<Rightarrow>
          (case filter_nodes_iter M ns t of
             Inl e \<Rightarrow> Inl e
           | Inr r \<Rightarrow> Inr (if t' = t then n # r else r)))"

definition apply_node_filter :: "model \<Rightarrow> string list \<Rightarrow> io_filter \<Rightarrow> error + string list" where
  "apply_node_filter M names filt =
     (case filt of
        No_filter \<Rightarrow> Inr names
      | Everything_out \<Rightarrow> Inr []
      | Only t \<Rightarrow> filter_nodes_iter M names t)"

text \<open>
  The generator is run to its end; it yields a triple for every pair of seeds whose
  combined array has a true entry. With no seeds given it takes the current ones.
\<close>

definition seed_pair ::
  "(rel_array \<Rightarrow> 'h) \<Rightarrow> model \<Rightarrow> io_filter \<Rightarrow> string \<Rightarrow> string \<Rightarrow> 'h relevance \<Rightarrow>
   (error + (string \<times> string \<times> string list) list) \<times> 'h relevance" where
  "seed_pair H M filt seed rseed =
     seq (get_rel_array H Var (Str seed) (Str rseed)) (\<lambda>inter.
     seq (array_at inter) (\<lambda>arr.
       if \<exists>b \<in> set arr. b then
         seq (lift (apply_node_filter M (rel_names_iter arr (graph_vars M) True) filt)) (\<lambda>names.
              ret [(seed, rseed, names)])
       else ret []))"

definition iter_seed_pair_relevance ::
  "(rel_array \<Rightarrow> 'h) \<Rightarrow> model \<Rightarrow> bool \<Rightarrow> bool \<Rightarrow> 'h relevance \<Rightarrow>
   (error + (string \<times> string \<times> string list) list) \<times> 'h relevance" where
  "iter_seed_pair_relevance H M inputs outputs =
     (if get_io_filter inputs outputs = Everything_out then ret []
      else
        seq (gets seed_vars) (\<lambda>current.
          collect (\<lambda>seed. collect (seed_pair H M (get_io_filter inputs outputs) seed)
                            (iter_seeds (snd current)))
            (iter_seeds (fst current))))"

text \<open>
  \<open>pd_err_chk\<close> maps a colour to a dictionary from seed names to sets of names. The
  first two loops of \<open>_par_deriv_err_check\<close> fill it from the yielded triples; the
  entry of a name is overwritten by each later triple of that name.
\<close>

type_synonym pd_table = "(string \<times> (string \<times> string list) list) list"

definition pd_store :: "string \<Rightarrow> string \<Rightarrow> string list \<Rightarrow> pd_table \<Rightarrow> pd_table" where
  "pd_store color name relset tbl =
     od_update color (od_update name relset (case map_of tbl color of None \<Rightarrow> [] | Some d \<Rightarrow> d)) tbl"

fun pd_fill ::
  "model \<Rightarrow> (string \<times> meta) list \<Rightarrow> (string \<times> string \<times> string list \<Rightarrow> string) \<Rightarrow>
   (string \<times> string \<times> string list) list \<Rightarrow> pd_table \<Rightarrow> error + pd_table" where
  "pd_fill M metas pick [] tbl = Inr tbl"
| "pd_fill M metas pick (triple # rest) tbl =
     (case map_of metas (pick triple) of
        None \<Rightarrow> pd_fill M metas pick rest tbl
      | Some m \<Rightarrow>
          (case node_local M (pick triple) of
             None \<Rightarrow> Inl KeyError
           | Some False \<Rightarrow> pd_fill M metas pick rest tbl
           | Some True \<Rightarrow>
               (case parallel_deriv_color m of
                  None \<Rightarrow> pd_fill M metas pick rest tbl
                | Some color \<Rightarrow>
                    if color = [] then pd_fill M metas pick rest tbl
                    else pd_fill M metas pick rest
                           (pd_store color (pick triple) (snd (snd triple)) tbl))))"

text \<open>The three nested loops that collect the names with overlapping sets.\<close>

definition overlapping :: "(string \<times> string list) list \<Rightarrow> string list" where
  "overlapping dct =
     concat (map (\<lambda>(vname, relset).
        concat (map (\<lambda>(n, nds). if vname \<noteq> n \<and> (\<exists>x \<in> set relset. x \<in> set nds) then [vname] else [])
                  dct)) dct)"

definition pd_errs :: "pd_table \<Rightarrow> (string \<times> string list) list" where
  "pd_errs tbl = filter (\<lambda>(c, names). names \<noteq> []) (map (\<lambda>(c, dct). (c, overlapping dct)) tbl)"

text \<open>The text of the message: the \<open>repr\<close> of a list of names and the line of a colour.\<close>

fun join :: "string \<Rightarrow> string list \<Rightarrow> string" where
  "join sep [] = []"
| "join sep [x] = x"
| "join sep (x # y # ys) = x @ sep @ join sep (y # ys)"

definition repr_names :: "string list \<Rightarrow> string" where
  "repr_names ns = ''['' @ join '', '' (map (\<lambda>n. [CHR 0x27] @ n @ [CHR 0x27]) ns) @ '']''"

definition pd_line :: "string \<Rightarrow> string \<Rightarrow> string list \<Rightarrow> string" where
  "pd_line md color names =
     ''Parallel derivative color '' @ [CHR 0x27] @ color @ [CHR 0x27] @ '' has ''
       @ (if md = ''fwd'' then ''design variable'' else ''response'') @ ''s ''
       @ repr_names (sort names) @ '' with overlapping dependencies on the same rank.''"

definition pd_msg :: "string \<Rightarrow> (string \<times> string list) list list \<Rightarrow> string list" where
  "pd_msg md all_errs = concat (map (\<lambda>errdct. map (\<lambda>(color, names). pd_line md color names) errdct) all_errs)"

definition pd_raise :: "string \<Rightarrow> (string \<times> string list) list list \<Rightarrow> error + unit" where
  "pd_raise md all_errs =
     (if pd_msg md all_errs \<noteq> [] then Inl (RuntimeError (join [CHR 0x0A] (pd_msg md all_errs)))
      else Inr ())"

definition par_deriv_err_check ::
  "(rel_array \<Rightarrow> 'h) \<Rightarrow> model \<Rightarrow> (string \<times> meta) list \<Rightarrow> (string \<times> meta) list \<Rightarrow> 'h relevance \<Rightarrow>
   (error + unit) \<times> 'h relevance" where
  "par_deriv_err_check H M responses desvars =
     seq (if mode M = ''fwd'' \<or> mode M = ''auto'' then
            seq (iter_seed_pair_relevance H M True False) (\<lambda>triples.
              lift (pd_fill M desvars (\<lambda>(desvar, response, relset). desvar) triples []))
          else ret [])
       (\<lambda>tbl1.
     seq (if mode M = ''rev'' \<or> mode M = ''auto'' then
            seq (iter_seed_pair_relevance H M False True) (\<lambda>triples.
              lift (pd_fill M responses (\<lambda>(desvar, response, relset). response) triples tbl1))
          else ret tbl1)
       (\<lambda>tbl2. lift (pd_raise (mode M) (allgather M (pd_errs tbl2)))))"

subsection \<open>\<open>_set_all_seeds\<close>\<close>

definition set_single :: "kind \<Rightarrow> direction \<Rightarrow> string \<Rightarrow> addr \<Rightarrow> 'h relevance \<Rightarrow> 'h relevance" where
  "set_single k io n a s =
     (case (k, io) of
        (Var, Fwd) \<Rightarrow> s\<lparr>single_seed2relvars := (single_seed2relvars s)\<lparr>fwd_of := (fwd_of (single_seed2relvars s))(n \<mapsto> a)\<rparr>\<rparr>
      | (Var, Rev) \<Rightarrow> s\<lparr>single_seed2relvars := (single_seed2relvars s)\<lparr>rev_of := (rev_of (single_seed2relvars s))(n \<mapsto> a)\<rparr>\<rparr>
      | (Sys, Fwd) \<Rightarrow> s\<lparr>single_seed2relsys := (single_seed2relsys s)\<lparr>fwd_of := (fwd_of (single_seed2relsys s))(n \<mapsto> a)\<rparr>\<rparr>
      | (Sys, Rev) \<Rightarrow> s\<lparr>single_seed2relsys := (single_seed2relsys s)\<lparr>rev_of := (rev_of (single_seed2relsys s))(n \<mapsto> a)\<rparr>\<rparr>)"

definition single_map :: "kind \<Rightarrow> direction \<Rightarrow> 'h relevance \<Rightarrow> (string \<rightharpoonup> addr)" where
  "single_map k io s = (case io of Fwd \<Rightarrow> fwd_of (single_of k s) | Rev \<Rightarrow> rev_of (single_of k s))"

definition single_at :: "kind \<Rightarrow> direction \<Rightarrow> string \<Rightarrow> 'h relevance \<Rightarrow> (error + addr) \<times> 'h relevance" where
  "single_at k io n =
     seq (gets (\<lambda>s. single_map k io s n)) (\<lambda>found.
       case found of None \<Rightarrow> raise KeyError | Some a \<Rightarrow> ret a)"

definition is_local :: "model \<Rightarrow> meta \<Rightarrow> bool" where
  "is_local M m = (1 < comm_size M \<and> parallel_deriv_color m \<noteq> None)"

text \<open>
  The loop over \<open>_single_seed_array_iter\<close>: the generator builds the two arrays of a
  seed with \<open>_names2rel_array\<close>, and the loop body passes each through the cache again.
\<close>

definition single_seed_step ::
  "(rel_array \<Rightarrow> 'h) \<Rightarrow> model \<Rightarrow> direction \<Rightarrow> meta \<Rightarrow> 'h relevance \<Rightarrow> (error + unit) \<times> 'h relevance" where
  "single_seed_step H M io m =
     seq (names2rel_array H (dependent_vars M (source m) io (is_local M m))
            (length (graph_vars M)) (enumerate_names (graph_vars M))) (\<lambda>var_array.
     seq (names2rel_array H (dependent_systems M (source m) io (is_local M m))
            (length (graph_systems M)) (enumerate_names (graph_systems M))) (\<lambda>sys_array.
     seq (get_cached_ref H var_array) (\<lambda>a.
     seq (modify (set_single Var io (source m) a)) (\<lambda>_.
     seq (get_cached_ref H sys_array) (\<lambda>b.
          modify (set_single Sys io (source m) b))))))"

text \<open>\<open>has_par_derivs\<close>: the seeds whose arrays are local, with the direction written last.\<close>

definition has_par_derivs :: "model \<Rightarrow> meta list \<Rightarrow> meta list \<Rightarrow> (string \<times> direction) list" where
  "has_par_derivs M fwd_metas rev_metas =
     rev (map (\<lambda>m. (source m, Fwd)) (filter (is_local M) fwd_metas)
          @ map (\<lambda>m. (source m, Rev)) (filter (is_local M) rev_metas))"

text \<open>\<open>seed_map[fseed] = seed_map[frozenset((fseed,))] = sub = {}\<close>.\<close>

definition new_shared_dict :: "string \<Rightarrow> seed_map \<Rightarrow> seed_map" where
  "new_shared_dict fseed m =
     m\<lparr>outer := (outer m)(KStr fseed \<mapsto> length (dicts m), KSet {fseed} \<mapsto> length (dicts m)),
       dicts := dicts m @ [Map.empty]\<rparr>"

text \<open>\<open>_get_cached_array(x & y)\<close>.\<close>

definition and_of :: "(rel_array \<Rightarrow> 'h) \<Rightarrow> rel_array \<Rightarrow> rel_array \<Rightarrow> 'h relevance \<Rightarrow> (error + addr) \<times> 'h relevance" where
  "and_of H x y = seq (lift (binop (\<and>) x y)) (get_cached_array H)"

text \<open>\<open>sub[rsrc] = sub[frozenset((rsrc,))] = a\<close> for the inner dictionary \<open>sub\<close>.\<close>

definition store_both :: "kind \<Rightarrow> nat \<Rightarrow> string \<Rightarrow> addr \<Rightarrow> 'h relevance \<Rightarrow> 'h relevance" where
  "store_both k sub rsrc a s =
     set_seed_map k (dict_store sub (KSet {rsrc}) a (dict_store sub (KStr rsrc) a (seed_map_of k s))) s"

definition pair_entry ::
  "(rel_array \<Rightarrow> 'h) \<Rightarrow> kind \<Rightarrow> nat \<Rightarrow> string \<Rightarrow> string \<Rightarrow> 'h relevance \<Rightarrow> (error + unit) \<times> 'h relevance" where
  "pair_entry H k sub fseed rsrc =
     seq (single_at k Fwd fseed) (\<lambda>farr.
     seq (single_at k Rev rsrc) (\<lambda>rarr.
     seq (array_at farr) (\<lambda>x.
     seq (array_at rarr) (\<lambda>y.
     seq (and_of H x y) (\<lambda>a.
          modify (store_both k sub rsrc a))))))"

definition pair_loop ::
  "(rel_array \<Rightarrow> 'h) \<Rightarrow> string list \<Rightarrow> string \<Rightarrow> 'h relevance \<Rightarrow> (error + unit) \<times> 'h relevance" where
  "pair_loop H rkeys fseed =
     seq (gets (\<lambda>s. length (dicts (seed_var_map s)))) (\<lambda>vsub.
     seq (gets (\<lambda>s. length (dicts (seed_sys_map s)))) (\<lambda>ssub.
     seq (modify (\<lambda>s. s\<lparr>seed_var_map := new_shared_dict fseed (seed_var_map s),
                         seed_sys_map := new_shared_dict fseed (seed_sys_map s)\<rparr>)) (\<lambda>_.
          for_each (\<lambda>rsrc. seq (pair_entry H Var vsub fseed rsrc) (\<lambda>_. pair_entry H Sys ssub fseed rsrc))
            rkeys)))"

text \<open>An entry \<open>seed_map[k1][k2] = cached(single & all)\<close> of one kind.\<close>

definition side_entry ::
  "(rel_array \<Rightarrow> 'h) \<Rightarrow> kind \<Rightarrow> direction \<Rightarrow> string \<Rightarrow> rel_array \<Rightarrow> key \<Rightarrow> key \<Rightarrow>
   'h relevance \<Rightarrow> (error + unit) \<times> 'h relevance" where
  "side_entry H k io src all_array k1 k2 =
     seq (single_at k io src) (\<lambda>arr.
     seq (array_at arr) (\<lambda>x.
     seq (and_of H x all_array) (\<lambda>a.
          modify (\<lambda>s. set_seed_map k (store2 k1 k2 a (seed_map_of k s)) s))))"

definition full_entry ::
  "(rel_array \<Rightarrow> 'h) \<Rightarrow> kind \<Rightarrow> rel_array \<Rightarrow> rel_array \<Rightarrow> key \<Rightarrow> key \<Rightarrow>
   'h relevance \<Rightarrow> (error + unit) \<times> 'h relevance" where
  "full_entry H k all_f all_r k1 k2 =
     seq (and_of H all_f all_r) (\<lambda>a.
          modify (\<lambda>s. set_seed_map k (store2 k1 k2 a (seed_map_of k s)) s))"

text \<open>\<open>self._union_arrays(self._single_seed2rel...[io], seeds)\<close>.\<close>

definition union_of :: "kind \<Rightarrow> direction \<Rightarrow> seeds \<Rightarrow> 'h relevance \<Rightarrow> (error + rel_array) \<times> 'h relevance" where
  "union_of k io sds = seq (gets (\<lambda>s. union_arrays (heap s) (single_map k io s) sds)) lift"

text \<open>
  The last part of \<open>_set_all_seeds\<close>: the responses without a relevant design variable.
  \<open>farrs\<close> and \<open>rarrs\<close> are local dictionaries from names to arrays.
\<close>

definition unrestricted ::
  "(rel_array \<Rightarrow> 'h) \<Rightarrow> model \<Rightarrow> (string \<times> direction) list \<Rightarrow> direction \<Rightarrow> string \<Rightarrow>
   'h relevance \<Rightarrow> (error + (string \<times> addr) list) \<times> 'h relevance" where
  "unrestricted H M hpd io src =
     (case map_of hpd src of
        Some dir \<Rightarrow>
          seq (names2rel_array H (dependent_vars M src dir False)
                 (length (graph_vars M)) (enumerate_names (graph_vars M))) (\<lambda>a. ret [(src, a)])
      | None \<Rightarrow> seq (single_at Var io src) (\<lambda>a. ret [(src, a)]))"

fun no_dv_loop ::
  "rel_array list \<Rightarrow> (string \<rightharpoonup> nat) \<Rightarrow> rel_array \<Rightarrow> (string \<times> addr) list \<Rightarrow> error + string list" where
  "no_dv_loop hp v2i allfarrs [] = Inr []"
| "no_dv_loop hp v2i allfarrs ((rsrc, rarr) # rest) =
     (case binop (\<and>) allfarrs (hp ! rarr) of
        Inl e \<Rightarrow> Inl e
      | Inr both \<Rightarrow>
          (case v2i rsrc of
             None \<Rightarrow> Inl KeyError
           | Some i \<Rightarrow>
               if length both \<le> i then Inl IndexError
               else (case no_dv_loop hp v2i allfarrs rest of
                       Inl e \<Rightarrow> Inl e
                     | Inr r \<Rightarrow> Inr (if both ! i then r else rsrc # r))))"

definition set_no_dv_responses ::
  "(rel_array \<Rightarrow> 'h) \<Rightarrow> model \<Rightarrow> (string \<times> direction) list \<Rightarrow> string list \<Rightarrow> string list \<Rightarrow> seeds \<Rightarrow>
   'h relevance \<Rightarrow> (error + unit) \<times> 'h relevance" where
  "set_no_dv_responses H M hpd fkeys rkeys fwd_seeds =
     seq (collect (unrestricted H M hpd Fwd) fkeys) (\<lambda>farrs.
     seq (collect (unrestricted H M hpd Rev) rkeys) (\<lambda>rarrs.
     seq (gets heap) (\<lambda>hp.
     seq (lift (union_arrays hp (map_of farrs) fwd_seeds)) (\<lambda>allfarrs.
     seq (modify (\<lambda>s. s\<lparr>no_dv_responses := []\<rparr>)) (\<lambda>_.
     seq (gets heap) (\<lambda>hp'.
     seq (lift (no_dv_loop hp' (enumerate_names (graph_vars M)) allfarrs rarrs)) (\<lambda>names.
          modify (\<lambda>s. s\<lparr>no_dv_responses := names\<rparr>))))))))"

definition empty_seed_map :: seed_map where
  "empty_seed_map = \<lparr>outer = Map.empty, dicts = []\<rparr>"

definition empty_single :: single_maps where
  "empty_single = \<lparr>fwd_of = Map.empty, rev_of = Map.empty\<rparr>"

text \<open>
  \<open>_set_all_seeds\<close> in three parts: the attributes it resets, the arrays of the single
  seeds, and the entries of the seed maps with what follows them. The attributes
  \<open>_current_var_array\<close> and \<open>_current_sys_array\<close> that the source sets are read
  nowhere and are left out.
\<close>

definition reset_seeds :: "seeds \<Rightarrow> seeds \<Rightarrow> 'h relevance \<Rightarrow> 'h relevance" where
  "reset_seeds fwd_seeds rev_seeds s =
     s\<lparr>seed_var_map := empty_seed_map, seed_sys_map := empty_seed_map,
       all_seed_vars := (fwd_seeds, rev_seeds),
       single_seed2relvars := empty_single, single_seed2relsys := empty_single\<rparr>"

definition set_tables :: "model \<Rightarrow> 'h relevance \<Rightarrow> 'h relevance" where
  "set_tables M s =
     s\<lparr>all_systems := Some (graph_systems M),
       sys2idx := Some (enumerate_names (graph_systems M)),
       var2idx := Some (enumerate_names (graph_vars M))\<rparr>"

definition fill_seed_maps ::
  "(rel_array \<Rightarrow> 'h) \<Rightarrow> string list \<Rightarrow> string list \<Rightarrow> seeds \<Rightarrow> seeds \<Rightarrow>
   'h relevance \<Rightarrow> (error + unit) \<times> 'h relevance" where
  "fill_seed_maps H fkeys rkeys fwd_seeds rev_seeds =
     seq (for_each (pair_loop H rkeys) fkeys) (\<lambda>_.
     seq (union_of Var Fwd fwd_seeds) (\<lambda>all_fseed_varray.
     seq (union_of Sys Fwd fwd_seeds) (\<lambda>all_fseed_sarray.
     seq (union_of Var Rev rev_seeds) (\<lambda>all_rseed_varray.
     seq (union_of Sys Rev rev_seeds) (\<lambda>all_rseed_sarray.
     seq (for_each (\<lambda>fsrc.
            seq (side_entry H Var Fwd fsrc all_rseed_varray (KStr fsrc) (key_of rev_seeds)) (\<lambda>_.
                 side_entry H Sys Fwd fsrc all_rseed_sarray (KStr fsrc) (key_of rev_seeds))) fkeys) (\<lambda>_.
     seq (modify (\<lambda>s. s\<lparr>seed_var_map := new_dict (key_of fwd_seeds) (seed_var_map s),
                         seed_sys_map := new_dict (key_of fwd_seeds) (seed_sys_map s)\<rparr>)) (\<lambda>_.
     seq (for_each (\<lambda>rsrc.
            seq (side_entry H Var Rev rsrc all_fseed_varray (key_of fwd_seeds) (KStr rsrc)) (\<lambda>_.
                 side_entry H Sys Rev rsrc all_fseed_sarray (key_of fwd_seeds) (KStr rsrc))) rkeys) (\<lambda>_.
     seq (full_entry H Var all_fseed_varray all_rseed_varray (key_of fwd_seeds) (key_of rev_seeds)) (\<lambda>_.
          full_entry H Sys all_fseed_sarray all_rseed_sarray (key_of fwd_seeds) (key_of rev_seeds))))))))))"

definition set_all_seeds ::
  "(rel_array \<Rightarrow> 'h) \<Rightarrow> model \<Rightarrow> (string \<times> meta) list \<Rightarrow> (string \<times> meta) list \<Rightarrow>
   'h relevance \<Rightarrow> (error + unit) \<times> 'h relevance" where
  "set_all_seeds H M fwd_meta rev_meta =
     seq (modify (reset_seeds (frozenset (map (source \<circ> snd) fwd_meta))
                              (frozenset (map (source \<circ> snd) rev_meta)))) (\<lambda>_.
       if fwd_meta = [] \<or> rev_meta = [] then ret ()
       else
         seq (modify (set_tables M)) (\<lambda>_.
         seq (for_each (single_seed_step H M Fwd) (map snd fwd_meta)) (\<lambda>_.
         seq (for_each (single_seed_step H M Rev) (map snd rev_meta)) (\<lambda>_.
         seq (fill_seed_maps H (uniq (map (source \<circ> snd) fwd_meta)) (uniq (map (source \<circ> snd) rev_meta))
                (frozenset (map (source \<circ> snd) fwd_meta)) (frozenset (map (source \<circ> snd) rev_meta))) (\<lambda>_.
         seq (set_seeds H (frozenset (map (source \<circ> snd) fwd_meta))
                (frozenset (map (source \<circ> snd) rev_meta))) (\<lambda>_.
         seq (if has_par_derivs M (map snd fwd_meta) (map snd rev_meta) \<noteq> []
              then par_deriv_err_check H M rev_meta fwd_meta else ret ()) (\<lambda>_.
              set_no_dv_responses H M (has_par_derivs M (map snd fwd_meta) (map snd rev_meta))
                (uniq (map (source \<circ> snd) fwd_meta)) (uniq (map (source \<circ> snd) rev_meta))
                (frozenset (map (source \<circ> snd) fwd_meta)))))))))"

subsection \<open>\<open>_setup_nonlinear_sets\<close> and the constructor\<close>

definition with_root :: "string list \<Rightarrow> string list" where
  "with_root systems = (if systems \<noteq> [] then systems @ [[]] else systems)"

definition alloc :: "rel_array \<Rightarrow> 'h relevance \<Rightarrow> (error + addr) \<times> 'h relevance" where
  "alloc arr s = (Inr (length (heap s)), s\<lparr>heap := heap s @ [arr]\<rparr>)"

text \<open>The array of the iterated systems is stored as it is built, not through the cache.\<close>

definition iter_array ::
  "model \<Rightarrow> nat \<Rightarrow> rel_array \<Rightarrow> rel_array \<Rightarrow> 'h relevance \<Rightarrow> (error + addr) \<times> 'h relevance" where
  "iter_array M n pre post =
     (if iterated_contains_all M then alloc (replicate n True)
      else seq (lift (binop (\<or>) pre post)) (\<lambda>u. alloc (map Not u)))"

definition setup_nonlinear_sets ::
  "(rel_array \<Rightarrow> 'h) \<Rightarrow> model \<Rightarrow> 'h relevance \<Rightarrow> (error + unit) \<times> 'h relevance" where
  "setup_nonlinear_sets H M =
     seq (gets all_systems) (\<lambda>a. seq (attr a) (\<lambda>all_sys.
     seq (gets sys2idx) (\<lambda>b. seq (attr b) (\<lambda>s2i.
     seq (names2rel_array H (with_root (concat (map (ancestors M) (pre_components M))))
            (length all_sys) s2i) (\<lambda>pre_array.
     seq (names2rel_array H (with_root (concat (map (ancestors M) (post_components M))))
            (length all_sys) s2i) (\<lambda>post_array.
     seq (array_at pre_array) (\<lambda>pre.
     seq (array_at post_array) (\<lambda>post.
     seq (iter_array M (length all_sys) pre post) (\<lambda>iter_arr.
          modify (\<lambda>s. s\<lparr>nonlinear_sets :=
            [''pre'' \<mapsto> pre_array, ''iter'' \<mapsto> iter_arr, ''post'' \<mapsto> post_array]\<rparr>))))))))))"

definition new_relevance :: "'h relevance" where
  "new_relevance =
     \<lparr>heap = [], rel_array_cache = Map.empty, active = None,
      seed_vars = (Frozenset [], Frozenset []), all_seed_vars = (Frozenset [], Frozenset []),
      seed_var_map = empty_seed_map, seed_sys_map = empty_seed_map,
      single_seed2relvars = empty_single, single_seed2relsys = empty_single,
      nonlinear_sets = Map.empty, current_rel_varray = None, current_rel_sarray = None,
      all_systems = None, var2idx = None, sys2idx = None, no_dv_responses = []\<rparr>"

definition init_body ::
  "(rel_array \<Rightarrow> 'h) \<Rightarrow> model \<Rightarrow> (string \<times> meta) list \<Rightarrow> (string \<times> meta) list \<Rightarrow>
   'h relevance \<Rightarrow> (error + unit) \<times> 'h relevance" where
  "init_body H M fwd_meta rev_meta =
     seq (set_all_seeds H M fwd_meta rev_meta) (\<lambda>_.
     seq (modify (\<lambda>s. s\<lparr>current_rel_varray := None, current_rel_sarray := None\<rparr>)) (\<lambda>_.
     seq (if pre_components M \<noteq> [] \<or> post_components M \<noteq> [] then setup_nonlinear_sets H M
          else modify (\<lambda>s. s\<lparr>nonlinear_sets := Map.empty\<rparr>)) (\<lambda>_.
          if \<not> (fwd_meta \<noteq> [] \<and> rev_meta \<noteq> []) then modify (\<lambda>s. s\<lparr>active := Some False\<rparr>)
          else ret ())))"

definition Relevance_init ::
  "(rel_array \<Rightarrow> 'h) \<Rightarrow> model \<Rightarrow> (string \<times> meta) list \<Rightarrow> (string \<times> meta) list \<Rightarrow> error + 'h relevance" where
  "Relevance_init H M fwd_meta rev_meta =
     (if pathname M \<noteq> [] then Inl AssertionError
      else (case init_body H M fwd_meta rev_meta new_relevance of
              (Inl e, _) \<Rightarrow> Inl e
            | (Inr _, s) \<Rightarrow> Inr s))"

subsection \<open>Nested scopes\<close>

text \<open>
  A run of the engine after construction is a sequence of actions: a \<open>with\<close> statement
  is entered, or the innermost open scope is left (its \<open>finally\<close> block runs, whether
  the body ended normally or raised). The open scopes form a stack of what each generator
  has saved. When \<open>seeds_active\<close> or \<open>all_seeds_active\<close> raises before its
  \<open>yield\<close>, no scope is opened and the state is the one the exception left.
\<close>

datatype token =
    T_active "bool option saved"
  | T_seeds "((seeds \<times> seeds) \<times> bool option) saved"
  | T_nonlinear "bool option saved"

datatype action =
    Enter_active bool
  | Enter_seeds_active "string list option" "string list option"
  | Enter_all_seeds_active
  | Enter_activate_nonlinear string bool
  | Leave

fun exit_scope :: "token \<Rightarrow> 'h relevance \<Rightarrow> 'h relevance" where
  "exit_scope (T_active sv) s = active_exit sv s"
| "exit_scope (T_seeds sv) s = seeds_active_exit sv s"
| "exit_scope (T_nonlinear sv) s = activate_nonlinear_exit sv s"

fun step :: "(rel_array \<Rightarrow> 'h) \<Rightarrow> action \<Rightarrow> 'h relevance \<times> token list \<Rightarrow> 'h relevance \<times> token list" where
  "step H (Enter_active b) (s, stk) =
     (case active_enter b s of (sv, s') \<Rightarrow> (s', T_active sv # stk))"
| "step H (Enter_seeds_active fwd_seeds rev_seeds) (s, stk) =
     (case seeds_active_enter H fwd_seeds rev_seeds s of
        (Inl e, s') \<Rightarrow> (s', stk)
      | (Inr sv, s') \<Rightarrow> (s', T_seeds sv # stk))"
| "step H Enter_all_seeds_active (s, stk) =
     (case all_seeds_active_enter H s of
        (Inl e, s') \<Rightarrow> (s', stk)
      | (Inr sv, s') \<Rightarrow> (s', T_seeds sv # stk))"
| "step H (Enter_activate_nonlinear name act) (s, stk) =
     (case activate_nonlinear_enter name act s of (sv, s') \<Rightarrow> (s', T_nonlinear sv # stk))"
| "step H Leave (s, stk) =
     (case stk of [] \<Rightarrow> (s, []) | tok # rest \<Rightarrow> (exit_scope tok s, rest))"

fun run :: "(rel_array \<Rightarrow> 'h) \<Rightarrow> action list \<Rightarrow> 'h relevance \<times> token list \<Rightarrow> 'h relevance \<times> token list" where
  "run H [] c = c"
| "run H (a # as) c = run H as (step H a c)"

text \<open>A scope that changed nothing on entry.\<close>

fun unchanged :: "token \<Rightarrow> bool" where
  "unchanged (T_active sv) = (sv = Unchanged)"
| "unchanged (T_seeds sv) = (sv = Unchanged)"
| "unchanged (T_nonlinear sv) = (sv = Unchanged)"

subsection \<open>Example models\<close>

text \<open>
  A model with one variable \<open>a\<close> that is design variable and response at once, and a
  model without design variables.
\<close>

definition model_a :: model where
  "model_a =
     \<lparr>pathname = [], comm_size = 1, mode = ''fwd'',
      graph_vars = [''a''], graph_systems = [[]],
      node_type = [''a'' \<mapsto> Output], node_local = [''a'' \<mapsto> True],
      dependent_vars = (\<lambda>n io l. [''a'']),
      dependent_systems = (\<lambda>n io l. [[]]),
      pre_components = [], post_components = [], iterated_contains_all = True,
      ancestors = (\<lambda>n. [n]), allgather = (\<lambda>e. [e])\<rparr>"

definition meta_a :: "(string \<times> meta) list" where
  "meta_a = [(''a'', \<lparr>source = ''a'', parallel_deriv_color = None\<rparr>)]"

text \<open>The engine that the constructor builds for \<open>model_a\<close> with the seed \<open>a\<close> on both sides.\<close>

definition engine_a :: "rel_array relevance" where
  "engine_a =
     \<lparr>heap = [[True]], rel_array_cache = [[True] \<mapsto> 0], active = None,
      seed_vars = (Frozenset [''a''], Frozenset [''a'']),
      all_seed_vars = (Frozenset [''a''], Frozenset [''a'']),
      seed_var_map =
        \<lparr>outer = [KStr ''a'' \<mapsto> 0, KSet {''a''} \<mapsto> 1],
         dicts = [[KStr ''a'' \<mapsto> 0, KSet {''a''} \<mapsto> 0], [KStr ''a'' \<mapsto> 0, KSet {''a''} \<mapsto> 0]]\<rparr>,
      seed_sys_map =
        \<lparr>outer = [KStr ''a'' \<mapsto> 0, KSet {''a''} \<mapsto> 1],
         dicts = [[KStr ''a'' \<mapsto> 0, KSet {''a''} \<mapsto> 0], [KStr ''a'' \<mapsto> 0, KSet {''a''} \<mapsto> 0]]\<rparr>,
      single_seed2relvars = \<lparr>fwd_of = [''a'' \<mapsto> 0], rev_of = [''a'' \<mapsto> 0]\<rparr>,
      single_seed2relsys = \<lparr>fwd_of = [''a'' \<mapsto> 0], rev_of = [''a'' \<mapsto> 0]\<rparr>,
      nonlinear_sets = Map.empty, current_rel_varray = None, current_rel_sarray = None,
      all_systems = Some [[]], var2idx = Some [''a'' \<mapsto> 0], sys2idx = Some [[] \<mapsto> 0],
      no_dv_responses = []\<rparr>"

subsection \<open>Specification predicates\<close>

text \<open>
  \<open>valid P m Q\<close>: when the step \<open>m\<close> starts in a state with \<open>P\<close> and returns a
  value, the value and the final state satisfy \<open>Q\<close>. \<open>keeps P m\<close>: \<open>P\<close>
  survives the step, also when it raises.
\<close>

definition valid :: "('s \<Rightarrow> bool) \<Rightarrow> ('s \<Rightarrow> (error + 'a) \<times> 's) \<Rightarrow> ('a \<Rightarrow> 's \<Rightarrow> bool) \<Rightarrow> bool" where
  "valid P m Q \<longleftrightarrow> (\<forall>s x s'. P s \<longrightarrow> m s = (Inr x, s') \<longrightarrow> Q x s')"

definition keeps :: "('s \<Rightarrow> bool) \<Rightarrow> ('s \<Rightarrow> (error + 'a) \<times> 's) \<Rightarrow> bool" where
  "keeps P m \<longleftrightarrow> (\<forall>s r s'. P s \<longrightarrow> m s = (r, s') \<longrightarrow> P s')"

definition triple ::
  "('s \<Rightarrow> bool) \<Rightarrow> ('s \<Rightarrow> (error + 'a) \<times> 's) \<Rightarrow> ('a \<Rightarrow> 's \<Rightarrow> bool) \<Rightarrow> ('s \<Rightarrow> bool) \<Rightarrow> bool" where
  "triple P m Q E \<longleftrightarrow>
     (\<forall>s r s'. P s \<longrightarrow> m s = (r, s') \<longrightarrow> (case r of Inl e \<Rightarrow> E s' | Inr x \<Rightarrow> Q x s'))"

text \<open>The names a dictionary key stands for.\<close>

fun members :: "key \<Rightarrow> string set" where
  "members (KStr n) = {n}"
| "members (KSet S) = S"

text \<open>
  The specification of a combined array of length \<open>N\<close>. \<open>unions N CV S\<close> is the
  element-wise or of the arrays that \<open>CV\<close> gives for the seeds in \<open>S\<close>; the combined
  array of a forward set \<open>F\<close> and a reverse set \<open>R\<close> is the element-wise and of the
  two unions.
\<close>

definition unions :: "nat \<Rightarrow> (string \<rightharpoonup> rel_array) \<Rightarrow> string set \<Rightarrow> rel_array" where
  "unions N CV S = map (\<lambda>i. \<exists>n \<in> S. \<exists>c. CV n = Some c \<and> c ! i) [0..<N]"

definition and_of_unions ::
  "nat \<Rightarrow> (string \<rightharpoonup> rel_array) \<Rightarrow> (string \<rightharpoonup> rel_array) \<Rightarrow> string set \<Rightarrow> string set \<Rightarrow> rel_array" where
  "and_of_unions N FV RV F R = map2 (\<and>) (unions N FV F) (unions N RV R)"

text \<open>The contents of the arrays of the single seeds of one kind and direction.\<close>

definition single_content :: "kind \<Rightarrow> direction \<Rightarrow> 'h relevance \<Rightarrow> (string \<rightharpoonup> rel_array)" where
  "single_content k io s = (\<lambda>n. map_option (\<lambda>a. heap s ! a) (single_map k io s n))"

text \<open>The lengths of the arrays of a model.\<close>

definition lengths :: "model \<Rightarrow> kind \<Rightarrow> nat" where
  "lengths M k = (case k of Var \<Rightarrow> length (graph_vars M) | Sys \<Rightarrow> length (graph_systems M))"

text \<open>Every entry of the cache is a stored array with the hash of its key.\<close>

definition cache_ok :: "(rel_array \<Rightarrow> 'h) \<Rightarrow> 'h relevance \<Rightarrow> bool" where
  "cache_ok H s \<longleftrightarrow>
     (\<forall>h a. rel_array_cache s h = Some a \<longrightarrow> a < length (heap s) \<and> H (heap s ! a) = h)"

text \<open>An address is canonical when the cache returns it for the hash of its array.\<close>

definition canonical :: "(rel_array \<Rightarrow> 'h) \<Rightarrow> 'h relevance \<Rightarrow> addr \<Rightarrow> bool" where
  "canonical H s a \<longleftrightarrow> a < length (heap s) \<and> rel_array_cache s (H (heap s ! a)) = Some a"

text \<open>The state \<open>s'\<close> is \<open>s\<close> with more arrays stored and more entries in the cache.\<close>

definition grows :: "'h relevance \<Rightarrow> 'h relevance \<Rightarrow> bool" where
  "grows s s' \<longleftrightarrow>
     (\<exists>ext c. s' = s\<lparr>heap := heap s @ ext, rel_array_cache := c\<rparr> \<and> rel_array_cache s \<subseteq>\<^sub>m c)"

definition stable :: "(rel_array \<Rightarrow> 'h) \<Rightarrow> ('h relevance \<Rightarrow> bool) \<Rightarrow> bool" where
  "stable H P \<longleftrightarrow> (\<forall>s s'. cache_ok H s \<longrightarrow> grows s s' \<longrightarrow> P s \<longrightarrow> P s')"

text \<open>A predicate that does not read the seed maps.\<close>

definition map_free :: "('h relevance \<Rightarrow> bool) \<Rightarrow> bool" where
  "map_free P \<longleftrightarrow> (\<forall>s k m. P (set_seed_map k m s) = P s)"

text \<open>Every entry of the seed maps of \<open>s\<close> is an entry of the seed maps of \<open>s'\<close>.\<close>

definition entries_kept :: "'h relevance \<Rightarrow> 'h relevance \<Rightarrow> bool" where
  "entries_kept s s' \<longleftrightarrow>
     (\<forall>k k1 k2 b. lookup2 (seed_map_of k s) k1 k2 = Some b \<longrightarrow> lookup2 (seed_map_of k s') k1 k2 = Some b)"

text \<open>The arrays of the single seeds are canonical and have the length of their kind.\<close>

definition singles_wf :: "(rel_array \<Rightarrow> 'h) \<Rightarrow> (kind \<Rightarrow> nat) \<Rightarrow> 'h relevance \<Rightarrow> bool" where
  "singles_wf H N s \<longleftrightarrow>
     (\<forall>k io n a. single_map k io s n = Some a \<longrightarrow> canonical H s a \<and> length (heap s ! a) = N k)"

text \<open>
  A seed map: every outer key points to an inner dictionary that exists, keys that share
  an inner dictionary stand for the same names, every entry satisfies \<open>can\<close>, and every
  entry under a frozenset satisfies \<open>good\<close> for the names of its two keys.
\<close>

definition dict_ok :: "seed_map \<Rightarrow> (addr \<Rightarrow> bool) \<Rightarrow> (string set \<Rightarrow> string set \<Rightarrow> addr \<Rightarrow> bool) \<Rightarrow> bool" where
  "dict_ok m can good \<longleftrightarrow>
     (\<forall>k1 d. outer m k1 = Some d \<longrightarrow> d < length (dicts m))
     \<and> (\<forall>k1 k1' d. outer m k1 = Some d \<longrightarrow> outer m k1' = Some d \<longrightarrow> members k1 = members k1')
     \<and> (\<forall>k1 k2 d a. outer m k1 = Some d \<longrightarrow> (dicts m ! d) k2 = Some a \<longrightarrow> can a)
     \<and> (\<forall>k1 R d a. outer m k1 = Some d \<longrightarrow> (dicts m ! d) (KSet R) = Some a \<longrightarrow> good (members k1) R a)"

text \<open>
  The invariant of the arrays of an engine, for array lengths \<open>N\<close> and contents \<open>C\<close> of
  the arrays of the single seeds: every entry of a seed map is canonical, and an entry
  under two frozensets has the specified combination as its content.
\<close>

definition entries_ok ::
  "(rel_array \<Rightarrow> 'h) \<Rightarrow> (kind \<Rightarrow> nat) \<Rightarrow> (kind \<Rightarrow> direction \<Rightarrow> string \<rightharpoonup> rel_array) \<Rightarrow> 'h relevance \<Rightarrow> bool" where
  "entries_ok H N C s \<longleftrightarrow>
     singles_wf H N s
     \<and> (\<forall>k io. single_content k io s = C k io)
     \<and> (\<forall>k. dict_ok (seed_map_of k s) (canonical H s)
               (\<lambda>F R a. heap s ! a = and_of_unions (N k) (C k Fwd) (C k Rev) F R))"

definition sound ::
  "(rel_array \<Rightarrow> 'h) \<Rightarrow> (kind \<Rightarrow> nat) \<Rightarrow> (kind \<Rightarrow> direction \<Rightarrow> string \<rightharpoonup> rel_array) \<Rightarrow> 'h relevance \<Rightarrow> bool" where
  "sound H N C s \<longleftrightarrow> cache_ok H s \<and> entries_ok H N C s"

text \<open>
  The other references of the engine: the current variable array and the arrays of the
  nonlinear sets other than \<open>iter\<close> are canonical, the current system array is
  canonical or the array of the \<open>iter\<close> set, and the seeds of the engine are frozensets.
\<close>

definition refs_ok :: "(rel_array \<Rightarrow> 'h) \<Rightarrow> 'h relevance \<Rightarrow> bool" where
  "refs_ok H s \<longleftrightarrow>
     (\<forall>a. current_rel_varray s = Some a \<longrightarrow> canonical H s a)
     \<and> (\<forall>a. current_rel_sarray s = Some a \<longrightarrow> canonical H s a \<or> nonlinear_sets s ''iter'' = Some a)
     \<and> (\<forall>name a. nonlinear_sets s name = Some a \<longrightarrow> name \<noteq> ''iter'' \<longrightarrow> canonical H s a)
     \<and> (\<exists>F R. all_seed_vars s = (Frozenset F, Frozenset R))"

definition engine_ok :: "(rel_array \<Rightarrow> 'h) \<Rightarrow> model \<Rightarrow> 'h relevance \<Rightarrow> bool" where
  "engine_ok H M s \<longleftrightarrow> (\<exists>C. sound H (lengths M) C s) \<and> refs_ok H s"

text \<open>The index tables that \<open>_set_all_seeds\<close> builds for a model.\<close>

definition tables_ok :: "model \<Rightarrow> 'h relevance \<Rightarrow> bool" where
  "tables_ok M s \<longleftrightarrow>
     var2idx s = Some (enumerate_names (graph_vars M))
     \<and> sys2idx s = Some (enumerate_names (graph_systems M))
     \<and> all_systems s = Some (graph_systems M)"

section \<open>Approximation schemes (openmdao/approximation_schemes/approximation_scheme.py)\<close>

subsection \<open>\<open>_update_coloring\<close>\<close>

text \<open>
  A key is the pair \<open>(of, wrt)\<close>; either component may be \<open>None\<close>. The options of a
  request are a dictionary: \<open>opt_coloring\<close> and \<open>opt_approxs\<close> are its entries
  \<open>coloring\<close> and \<open>approxs\<close> (\<open>None\<close> when the key is absent), \<open>opt_other\<close>
  stands for all other entries.
\<close>

type_synonym abs_key = "string option \<times> string option"

datatype ('c, 'o) options =
  Options (opt_coloring: "'c option")
          (opt_approxs: "(abs_key \<times> ('c, 'o) options) list option")
          (opt_other: 'o)

type_synonym ('c, 'o) approx = "abs_key \<times> ('c, 'o) options"

record ('c, 'o, 'g) approximation_scheme =
  approx_groups :: "'g option"
  approx_groups_cached_under_cs :: bool
  exec_list :: "('c, 'o) approx list"

text \<open>
  The test of the loop:
  \<open>key[0] is not None and (key[1] in wrt_matches or 'coloring' in options)\<close>.
\<close>

definition is_colored :: "string list \<Rightarrow> ('c, 'o) approx \<Rightarrow> bool" where
  "is_colored wrt_matches tup =
     (fst (fst tup) \<noteq> None
      \<and> ((case snd (fst tup) of None \<Rightarrow> False | Some wrt \<Rightarrow> wrt \<in> set wrt_matches)
          \<or> opt_coloring (snd tup) \<noteq> None))"

text \<open>
  The new entry: a copy of the options of the first colored request with the coloring and
  the list of absorbed requests. \<open>new_entry\<close> and the entry in \<open>new_list\<close> are one
  object in the source, so \<open>new_entry\<close> is the position of that entry in \<open>new_list\<close>
  and \<open>approxs.append\<close> writes there.
\<close>

definition colored_entry :: "'c \<Rightarrow> ('c, 'o) approx \<Rightarrow> ('c, 'o) approx" where
  "colored_entry coloring tup = ((None, None), Options (Some coloring) (Some [tup]) (opt_other (snd tup)))"

definition append_approx :: "('c, 'o) approx \<Rightarrow> ('c, 'o) approx \<Rightarrow> ('c, 'o) approx" where
  "append_approx tup entry =
     (fst entry,
      Options (opt_coloring (snd entry))
              (map_option (\<lambda>approxs. approxs @ [tup]) (opt_approxs (snd entry)))
              (opt_other (snd entry)))"

fun coloring_loop ::
  "string list \<Rightarrow> 'c option \<Rightarrow> ('c, 'o) approx list \<Rightarrow>
   ('c, 'o) approx list \<times> nat option \<times> abs_key set \<Rightarrow>
   ('c, 'o) approx list \<times> nat option \<times> abs_key set" where
  "coloring_loop wrt_matches coloring [] st = st"
| "coloring_loop wrt_matches coloring (tup # rest) (new_list, new_entry, colored) =
     (if is_colored wrt_matches tup then
        (case coloring of
           None \<Rightarrow> coloring_loop wrt_matches coloring rest (new_list @ [tup], new_entry, insert (fst tup) colored)
         | Some c \<Rightarrow>
             (case new_entry of
                None \<Rightarrow>
                  coloring_loop wrt_matches coloring rest
                    (new_list @ [colored_entry c tup], Some (length new_list), insert (fst tup) colored)
              | Some i \<Rightarrow>
                  coloring_loop wrt_matches coloring rest
                    (new_list[i := append_approx tup (new_list ! i)], new_entry, insert (fst tup) colored)))
      else coloring_loop wrt_matches coloring rest (new_list, new_entry, colored))"

text \<open>\<open>system._coloring_info['wrt_matches']\<close> may be \<open>None\<close>, which stands for no name.\<close>

definition update_coloring ::
  "string list option \<Rightarrow> 'c option \<Rightarrow> ('c, 'o, 'g) approximation_scheme \<Rightarrow> ('c, 'o, 'g) approximation_scheme" where
  "update_coloring wrt_matches coloring sch =
     (case coloring_loop (case wrt_matches of None \<Rightarrow> [] | Some w \<Rightarrow> w) coloring (exec_list sch) ([], None, {}) of
        (new_list, new_entry, colored) \<Rightarrow>
          if colored \<noteq> {} then
            sch\<lparr>exec_list := new_list @ filter (\<lambda>tup. fst tup \<notin> colored) (exec_list sch),
                approx_groups := None\<rparr>
          else sch)"

text \<open>
  The specification of the result: \<open>absorb\<close> folds the colored requests into the new
  entry the way the source does.
\<close>

definition colored_requests :: "string list option \<Rightarrow> ('c, 'o) approx list \<Rightarrow> ('c, 'o) approx list" where
  "colored_requests wrt_matches reqs = filter (is_colored (case wrt_matches of None \<Rightarrow> [] | Some w \<Rightarrow> w)) reqs"

definition uncolored_rest :: "string list option \<Rightarrow> ('c, 'o) approx list \<Rightarrow> ('c, 'o) approx list" where
  "uncolored_rest wrt_matches reqs =
     filter (\<lambda>tup. fst tup \<notin> fst ` set (colored_requests wrt_matches reqs)) reqs"

text \<open>An example: two requests for the same pair whose \<open>wrt\<close> is in the coloring.\<close>

definition twice :: "(nat, unit, unit) approximation_scheme" where
  "twice =
     \<lparr>approx_groups = Some (), approx_groups_cached_under_cs = False,
      exec_list = [((Some ''y'', Some ''x''), Options None None ()),
                   ((Some ''y'', Some ''x''), Options None None ())]\<rparr>"

section \<open>The nonlinear partition (\<open>_setup_nonlinear_relevance\<close> in relevance.py)\<close>

text \<open>
  The walk over the strongly connected components and what follows it. The list of
  components is what \<open>get_sccs_topo\<close> of \<open>openmdao.utils.graph_utils\<close> returns for
  the graph; \<open>typed s\<close> says that the node \<open>s\<close> has the attribute \<open>type_\<close>, which
  only the nodes of the \<open>_auto_ivc\<close> design variables have; \<open>rev_conns\<close> is the result
  of \<open>get_rev_conns\<close>.
\<close>

record partition_input =
  sccs :: "string list list"
  typed :: "string \<Rightarrow> bool"
  dv0 :: string
  auto_ivc_outputs :: "string list"
  auto_dvs :: "string list"
  rev_conns :: "string \<rightharpoonup> string list"
  groups_added :: "string set"

text \<open>\<open>s.rpartition('.')[0]\<close>: what precedes the last dot, empty when there is no dot.\<close>

definition rpartition_head :: "string \<Rightarrow> string" where
  "rpartition_head s =
     (if CHR ''.'' \<in> set s then rev (tl (dropWhile (\<lambda>c. c \<noteq> CHR ''.'') (rev s))) else [])"

definition component_of :: "(string \<Rightarrow> bool) \<Rightarrow> string \<Rightarrow> string" where
  "component_of is_typed s = (if is_typed s then rpartition_head s else s)"

text \<open>The inner loops: every member of a component is added to one set, under its component name.\<close>

fun add_members :: "(string \<Rightarrow> bool) \<Rightarrow> string list \<Rightarrow> string set \<Rightarrow> string set" where
  "add_members is_typed [] target = target"
| "add_members is_typed (s # rest) target =
     add_members is_typed rest
       (if component_of is_typed s \<notin> target then insert (component_of is_typed s) target else target)"

text \<open>
  The outer loop. \<open>addto\<close> is an alias of \<open>pre\<close> until the component of \<open>dv0\<close> has
  been seen and of \<open>post\<close> afterwards; the flag says which.
\<close>

fun scc_walk ::
  "(string \<Rightarrow> bool) \<Rightarrow> string \<Rightarrow> string list list \<Rightarrow> bool \<Rightarrow> string set \<times> string set \<times> string set \<Rightarrow>
   string set \<times> string set \<times> string set" where
  "scc_walk is_typed d [] addto_post (pre, iterated, post) = (pre, iterated, post)"
| "scc_walk is_typed d (strong_con # rest) addto_post (pre, iterated, post) =
     (if d \<in> set strong_con then
        scc_walk is_typed d rest True (pre, add_members is_typed strong_con iterated, post)
      else if addto_post then
        scc_walk is_typed d rest addto_post (pre, iterated, add_members is_typed strong_con post)
      else
        scc_walk is_typed d rest addto_post (add_members is_typed strong_con pre, iterated, post))"

text \<open>The search for an output of \<open>_auto_ivc\<close> that is no design variable and feeds \<open>pre\<close>.\<close>

fun feeds_pre :: "partition_input \<Rightarrow> string set \<Rightarrow> string list \<Rightarrow> error + bool" where
  "feeds_pre inp pre [] = Inr False"
| "feeds_pre inp pre (vname # rest) =
     (if vname \<notin> set (auto_dvs inp) then
        (case rev_conns inp vname of
           None \<Rightarrow> Inl KeyError
         | Some tgts \<Rightarrow>
             if \<exists>tgt \<in> set tgts. rpartition_head tgt \<in> pre then Inr True
             else feeds_pre inp pre rest)
      else feeds_pre inp pre rest)"

definition adjust_pre :: "partition_input \<Rightarrow> string set \<Rightarrow> error + string set" where
  "adjust_pre inp pre =
     (case (if ''_auto_ivc'' \<notin> pre then
              (case feeds_pre inp pre (auto_ivc_outputs inp) of
                 Inl e \<Rightarrow> Inl e
               | Inr in_pre \<Rightarrow> Inr (if in_pre then insert ''_auto_ivc'' pre else pre))
            else Inr pre) of
        Inl e \<Rightarrow> Inl e
      | Inr pre1 \<Rightarrow>
          Inr (if card pre1 = 1 \<and> ''_auto_ivc'' \<in> pre1 then pre1 - {''_auto_ivc''} else pre1))"

text \<open>
  The three sets before the groups that were added to the graph are subtracted, and the
  three attributes that the method assigns at its end.
\<close>

definition partition_sets :: "partition_input \<Rightarrow> error + (string set \<times> string set \<times> string set)" where
  "partition_sets inp =
     (case scc_walk (typed inp) (dv0 inp) (sccs inp) False ({}, {}, {}) of
        (pre, iterated, post) \<Rightarrow>
          (case adjust_pre inp pre of
             Inl e \<Rightarrow> Inl e
           | Inr pre' \<Rightarrow> Inr (pre', iterated, post)))"

definition setup_nonlinear_relevance ::
  "partition_input \<Rightarrow> error + (string set \<times> string set \<times> string set)" where
  "setup_nonlinear_relevance inp =
     (case partition_sets inp of
        Inl e \<Rightarrow> Inl e
      | Inr (pre, iterated, post) \<Rightarrow>
          Inr (pre - groups_added inp, iterated - groups_added inp, post - groups_added inp))"

text \<open>The names that the walk has reached, each under its component name.\<close>

definition reached :: "partition_input \<Rightarrow> string set" where
  "reached inp = component_of (typed inp) ` set (concat (sccs inp))"

text \<open>
  A model whose design variable is an output of \<open>_auto_ivc\<close>: the component
  \<open>_auto_ivc\<close> and a component \<open>p\<close> come before the component of the design variable
  node \<open>_auto_ivc.v0\<close> and of \<open>c\<close>. And a model whose design variable is the output
  of a component \<open>d\<close>, with \<open>_auto_ivc\<close> alone before it.
\<close>

definition auto_dv_model :: partition_input where
  "auto_dv_model =
     \<lparr>sccs = [[''_auto_ivc''], [''p''], [''_auto_ivc.v0'', ''c'']],
      typed = (\<lambda>s. s = ''_auto_ivc.v0''),
      dv0 = ''_auto_ivc.v0'',
      auto_ivc_outputs = [''_auto_ivc.v0'', ''_auto_ivc.v1''],
      auto_dvs = [''_auto_ivc.v0''],
      rev_conns = [''_auto_ivc.v0'' \<mapsto> [''c.x''], ''_auto_ivc.v1'' \<mapsto> [''p.x'']],
      groups_added = {}\<rparr>"

definition comp_dv_model :: partition_input where
  "comp_dv_model =
     \<lparr>sccs = [[''_auto_ivc''], [''d'', ''c'']],
      typed = (\<lambda>s. False),
      dv0 = ''d'',
      auto_ivc_outputs = [''_auto_ivc.v0''],
      auto_dvs = [],
      rev_conns = [''_auto_ivc.v0'' \<mapsto> [''c.y'']],
      groups_added = {}\<rparr>"

section \<open>Proofs about the relevance engine\<close>

subsection \<open>Rules for sequenced steps\<close>

lemma validI: "(\<And>s x s'. P s \<Longrightarrow> m s = (Inr x, s') \<Longrightarrow> Q x s') \<Longrightarrow> valid P m Q"
  by (simp add: valid_def)

lemma validD: "valid P m Q \<Longrightarrow> P s \<Longrightarrow> m s = (Inr x, s') \<Longrightarrow> Q x s'"
  by (simp add: valid_def)

lemma valid_weaken: "valid P m Q \<Longrightarrow> (\<And>s. P' s \<Longrightarrow> P s) \<Longrightarrow> (\<And>x s. Q x s \<Longrightarrow> Q' x s) \<Longrightarrow> valid P' m Q'"
  unfolding valid_def by blast

lemma valid_pre: "valid P m Q \<Longrightarrow> (\<And>s. P' s \<Longrightarrow> P s) \<Longrightarrow> valid P' m Q"
  unfolding valid_def by blast

lemma valid_post: "valid P m Q \<Longrightarrow> (\<And>x s. Q x s \<Longrightarrow> Q' x s) \<Longrightarrow> valid P m Q'"
  unfolding valid_def by blast

lemma valid_conj: "valid P m Q \<Longrightarrow> valid P' m Q' \<Longrightarrow> valid (\<lambda>s. P s \<and> P' s) m (\<lambda>x s. Q x s \<and> Q' x s)"
  unfolding valid_def by blast

lemma valid_ex: "(\<And>v. valid (P v) m Q) \<Longrightarrow> valid (\<lambda>s. \<exists>v. P v s) m Q"
  unfolding valid_def by blast

lemma valid_assume: "(A \<Longrightarrow> valid P m Q) \<Longrightarrow> valid (\<lambda>s. A \<and> P s) m Q"
  unfolding valid_def by blast

lemma valid_seq: "valid P m Q \<Longrightarrow> (\<And>x. valid (Q x) (f x) R) \<Longrightarrow> valid P (seq m f) R"
  by (auto simp: valid_def seq_def split: prod.splits sum.splits)

lemma valid_ret: "(\<And>s. P s \<Longrightarrow> Q x s) \<Longrightarrow> valid P (ret x) Q"
  by (simp add: valid_def ret_def)

lemma valid_raise: "valid P (raise e) Q"
  by (simp add: valid_def raise_def)

lemma valid_lift: "(\<And>s x. P s \<Longrightarrow> r = Inr x \<Longrightarrow> Q x s) \<Longrightarrow> valid P (lift r) Q"
  by (simp add: valid_def lift_def)

lemma valid_gets: "(\<And>s. P s \<Longrightarrow> Q (f s) s) \<Longrightarrow> valid P (gets f) Q"
  by (simp add: valid_def gets_def)

lemma valid_modify: "(\<And>s. P s \<Longrightarrow> Q () (g s)) \<Longrightarrow> valid P (modify g) Q"
  by (simp add: valid_def modify_def)

lemma valid_for_each:
  "(\<And>x. x \<in> set xs \<Longrightarrow> valid I (body x) (\<lambda>_. I)) \<Longrightarrow> valid I (for_each body xs) (\<lambda>_. I)"
proof (induction xs)
  case Nil
  show ?case by (simp add: valid_ret)
next
  case (Cons x xs)
  have "valid I (body x) (\<lambda>_. I)" using Cons.prems by simp
  moreover have "valid I (for_each body xs) (\<lambda>_. I)" using Cons by simp
  ultimately show ?case by (simp add: valid_seq)
qed

text \<open>Invariants that also survive an exception.\<close>

lemma keepsI: "(\<And>s r s'. I s \<Longrightarrow> m s = (r, s') \<Longrightarrow> I s') \<Longrightarrow> keeps I m"
  by (simp add: keeps_def)

lemma keepsD: "keeps I m \<Longrightarrow> I s \<Longrightarrow> m s = (r, s') \<Longrightarrow> I s'"
  unfolding keeps_def by blast

lemma keeps_valid: "keeps I m \<Longrightarrow> valid I m (\<lambda>_. I)"
  unfolding keeps_def valid_def by blast

lemma keeps_seq:
  assumes "keeps I m" and "\<And>x. keeps I (f x)"
  shows "keeps I (seq m f)"
proof (rule keepsI)
  fix s r s'
  assume I: "I s" and e: "seq m f s = (r, s')"
  obtain r1 s1 where m: "m s = (r1, s1)" by (cases "m s")
  have I1: "I s1" using assms(1) I m by (rule keepsD)
  show "I s'"
  proof (cases r1)
    case (Inl e')
    then show ?thesis using e m I1 by (simp add: seq_def)
  next
    case (Inr x)
    then have "f x s1 = (r, s')" using e m by (simp add: seq_def)
    with assms(2) [of x] I1 show ?thesis by (rule keepsD)
  qed
qed

lemma keeps_ret: "keeps I (ret x)"
  by (simp add: keeps_def ret_def)

lemma keeps_raise: "keeps I (raise e)"
  by (simp add: keeps_def raise_def)

lemma keeps_lift: "keeps I (lift r)"
  by (simp add: keeps_def lift_def)

lemma keeps_gets: "keeps I (gets f)"
  by (simp add: keeps_def gets_def)

lemma keeps_attr: "keeps I (attr x)"
  by (cases x) (simp_all add: attr_def keeps_raise keeps_ret)

lemma keeps_array_at: "keeps I (array_at a)"
  by (simp add: array_at_def keeps_gets)

lemma keeps_modify: "(\<And>s. I s \<Longrightarrow> I (g s)) \<Longrightarrow> keeps I (modify g)"
  by (simp add: keeps_def modify_def)

lemma keeps_for_each: "(\<And>x. x \<in> set xs \<Longrightarrow> keeps I (body x)) \<Longrightarrow> keeps I (for_each body xs)"
proof (induction xs)
  case Nil
  show ?case by (simp add: keeps_ret)
next
  case (Cons x xs)
  have "keeps I (body x)" using Cons.prems by simp
  moreover have "keeps I (for_each body xs)" using Cons by simp
  ultimately show ?case by (simp add: keeps_seq)
qed

lemma keeps_collect: "(\<And>x. x \<in> set xs \<Longrightarrow> keeps I (f x)) \<Longrightarrow> keeps I (collect f xs)"
proof (induction xs)
  case Nil
  show ?case by (simp add: keeps_ret)
next
  case (Cons x xs)
  have a: "keeps I (f x)" using Cons.prems by simp
  have b: "keeps I (collect f xs)" using Cons by simp
  show ?case by (simp add: keeps_seq a b keeps_ret)
qed

lemmas keeps_basic = keeps_ret keeps_raise keeps_lift keeps_gets keeps_attr keeps_array_at

text \<open>Rules for a postcondition on the value together with a postcondition on an exception.\<close>

lemma tripleI:
  "(\<And>s x s'. P s \<Longrightarrow> m s = (Inr x, s') \<Longrightarrow> Q x s') \<Longrightarrow>
   (\<And>s e s'. P s \<Longrightarrow> m s = (Inl e, s') \<Longrightarrow> E s') \<Longrightarrow> triple P m Q E"
  by (auto simp: triple_def split: sum.splits)

lemma triple_Inr: "triple P m Q E \<Longrightarrow> P s \<Longrightarrow> m s = (Inr x, s') \<Longrightarrow> Q x s'"
  unfolding triple_def by fastforce

lemma triple_Inl: "triple P m Q E \<Longrightarrow> P s \<Longrightarrow> m s = (Inl e, s') \<Longrightarrow> E s'"
  unfolding triple_def by fastforce

lemma triple_valid: "triple P m Q E \<Longrightarrow> valid P m Q"
  by (auto simp: valid_def dest: triple_Inr)

lemma triple_keeps: "triple I m (\<lambda>_. I) I \<Longrightarrow> keeps I m"
proof (rule keepsI)
  fix s r s'
  assume "triple I m (\<lambda>_. I) I" and "I s" and "m s = (r, s')"
  then show "I s'" by (cases r) (auto dest: triple_Inr triple_Inl)
qed

lemma triple_weaken:
  "triple P m Q E \<Longrightarrow> (\<And>s. P' s \<Longrightarrow> P s) \<Longrightarrow> (\<And>x s. Q x s \<Longrightarrow> Q' x s) \<Longrightarrow> (\<And>s. E s \<Longrightarrow> E' s) \<Longrightarrow>
   triple P' m Q' E'"
proof (rule tripleI)
  fix s x s'
  assume "triple P m Q E" "\<And>s. P' s \<Longrightarrow> P s" "\<And>x s. Q x s \<Longrightarrow> Q' x s" "P' s" "m s = (Inr x, s')"
  then show "Q' x s'" by (blast dest: triple_Inr)
next
  fix s e s'
  assume "triple P m Q E" "\<And>s. P' s \<Longrightarrow> P s" "\<And>s. E s \<Longrightarrow> E' s" "P' s" "m s = (Inl e, s')"
  then show "E' s'" by (blast dest: triple_Inl)
qed

lemma triple_pre: "triple P m Q E \<Longrightarrow> (\<And>s. P' s \<Longrightarrow> P s) \<Longrightarrow> triple P' m Q E"
  by (erule triple_weaken)

lemma triple_post: "triple P m Q E \<Longrightarrow> (\<And>x s. Q x s \<Longrightarrow> Q' x s) \<Longrightarrow> triple P m Q' E"
  by (erule triple_weaken)

lemma triple_assume: "(A \<Longrightarrow> triple P m Q E) \<Longrightarrow> triple (\<lambda>s. A \<and> P s) m Q E"
  unfolding triple_def by blast

lemma triple_seq:
  assumes "triple P m Q E" and "\<And>x. triple (Q x) (f x) R E"
  shows "triple P (seq m f) R E"
proof (rule tripleI)
  fix s y s'
  assume P: "P s" and e: "seq m f s = (Inr y, s')"
  obtain r1 s1 where m: "m s = (r1, s1)" by (cases "m s")
  from e m obtain x where r1: "r1 = Inr x" and f: "f x s1 = (Inr y, s')"
    by (cases r1) (auto simp: seq_def)
  have "Q x s1" using assms(1) P m r1 by (auto dest: triple_Inr)
  with assms(2) [of x] f show "R y s'" by (auto dest: triple_Inr)
next
  fix s e s'
  assume P: "P s" and e: "seq m f s = (Inl e, s')"
  obtain r1 s1 where m: "m s = (r1, s1)" by (cases "m s")
  show "E s'"
  proof (cases r1)
    case (Inl e')
    then have "m s = (Inl e', s')" using e m by (simp add: seq_def)
    with assms(1) P show ?thesis by (auto dest: triple_Inl)
  next
    case (Inr x)
    then have f: "f x s1 = (Inl e, s')" using e m by (simp add: seq_def)
    have "Q x s1" using assms(1) P m Inr by (auto dest: triple_Inr)
    with assms(2) [of x] f show ?thesis by (auto dest: triple_Inl)
  qed
qed

lemma triple_ret: "(\<And>s. P s \<Longrightarrow> Q x s) \<Longrightarrow> triple P (ret x) Q E"
  by (simp add: triple_def ret_def)

lemma triple_raise: "(\<And>s. P s \<Longrightarrow> E s) \<Longrightarrow> triple P (raise e) Q E"
  by (simp add: triple_def raise_def)

lemma triple_lift:
  "(\<And>s x. P s \<Longrightarrow> r = Inr x \<Longrightarrow> Q x s) \<Longrightarrow> (\<And>s e. P s \<Longrightarrow> r = Inl e \<Longrightarrow> E s) \<Longrightarrow>
   triple P (lift r) Q E"
  by (cases r) (simp_all add: triple_def lift_def)

lemma triple_gets: "(\<And>s. P s \<Longrightarrow> Q (f s) s) \<Longrightarrow> triple P (gets f) Q E"
  by (simp add: triple_def gets_def)

lemma triple_modify: "(\<And>s. P s \<Longrightarrow> Q () (g s)) \<Longrightarrow> triple P (modify g) Q E"
  by (simp add: triple_def modify_def)

lemma triple_for_each:
  "(\<And>x. x \<in> set xs \<Longrightarrow> triple I (body x) (\<lambda>_. I) E) \<Longrightarrow> triple I (for_each body xs) (\<lambda>_. I) E"
proof (induction xs)
  case Nil
  show ?case by (simp add: triple_ret)
next
  case (Cons x xs)
  have "triple I (body x) (\<lambda>_. I) E" using Cons.prems by simp
  moreover have "triple I (for_each body xs) (\<lambda>_. I) E" using Cons by simp
  ultimately show ?case by (simp add: triple_seq)
qed

lemma triple_collect:
  "(\<And>x. x \<in> set xs \<Longrightarrow> triple I (f x) (\<lambda>_. I) E) \<Longrightarrow> triple I (collect f xs) (\<lambda>_. I) E"
proof (induction xs)
  case Nil
  show ?case by (simp add: triple_ret)
next
  case (Cons x xs)
  have a: "triple I (f x) (\<lambda>_. I) E" using Cons.prems by simp
  have b: "triple I (collect f xs) (\<lambda>_. I) E" using Cons by simp
  show ?case by (simp add: triple_seq [OF a] triple_seq [OF b] triple_ret)
qed

lemma keeps_triple: "keeps I m \<Longrightarrow> triple I m (\<lambda>_. I) I"
  by (rule tripleI) (auto dest: keepsD)


subsection \<open>The index tables are never written after they are built\<close>

lemma tables_update [simp]:
  "tables_ok M (s\<lparr>heap := hp\<rparr>) = tables_ok M s"
  "tables_ok M (s\<lparr>rel_array_cache := c\<rparr>) = tables_ok M s"
  "tables_ok M (s\<lparr>seed_vars := sv\<rparr>) = tables_ok M s"
  "tables_ok M (s\<lparr>active := ac\<rparr>) = tables_ok M s"
  "tables_ok M (s\<lparr>current_rel_varray := cv\<rparr>) = tables_ok M s"
  "tables_ok M (s\<lparr>current_rel_sarray := cs\<rparr>) = tables_ok M s"
  "tables_ok M (s\<lparr>seed_var_map := m\<rparr>) = tables_ok M s"
  "tables_ok M (s\<lparr>seed_sys_map := m\<rparr>) = tables_ok M s"
  "tables_ok M (s\<lparr>single_seed2relvars := sm\<rparr>) = tables_ok M s"
  "tables_ok M (s\<lparr>single_seed2relsys := sm\<rparr>) = tables_ok M s"
  "tables_ok M (s\<lparr>no_dv_responses := nd\<rparr>) = tables_ok M s"
  "tables_ok M (s\<lparr>nonlinear_sets := nl\<rparr>) = tables_ok M s"
  "tables_ok M (s\<lparr>all_seed_vars := sv\<rparr>) = tables_ok M s"
  by (simp_all add: tables_ok_def)

lemma tables_set_seed_map [simp]: "tables_ok M (set_seed_map k m s) = tables_ok M s"
  by (cases k) (simp_all add: set_seed_map_def)

lemma tables_set_single [simp]: "tables_ok M (set_single k io n a s) = tables_ok M s"
  by (cases k; cases io) (simp_all add: set_single_def)

lemma tables_get_cached_array: "keeps (tables_ok M) (get_cached_array H arr)"
  by (rule keepsI) (auto simp: get_cached_array_def split: option.splits)

lemma tables_get_cached_ref: "keeps (tables_ok M) (get_cached_ref H a)"
  by (rule keepsI) (auto simp: get_cached_ref_def split: option.splits)

lemma tables_alloc: "keeps (tables_ok M) (alloc arr)"
  by (rule keepsI) (auto simp: alloc_def)

lemmas tables_prim = keeps_basic tables_get_cached_array tables_get_cached_ref tables_alloc

lemma tables_names2rel_array: "keeps (tables_ok M) (names2rel_array H ns n t)"
  unfolding names2rel_array_def by (intro keeps_seq tables_prim) (simp add: tables_prim)

lemma tables_combine_relevance: "keeps (tables_ok M) (combine_relevance H fm F rm R)"
  unfolding combine_relevance_def by (intro keeps_seq tables_prim)

lemma tables_get_rel_array: "keeps (tables_ok M) (get_rel_array H k F R)"
  unfolding get_rel_array_def
  by (intro keeps_seq tables_prim)
     (auto intro!: keeps_seq keeps_modify tables_prim tables_combine_relevance split: option.split)

lemma tables_set_seeds: "keeps (tables_ok M) (set_seeds H F R)"
  unfolding set_seeds_def
  by (intro keeps_seq keeps_modify)
     (auto intro!: keeps_seq keeps_modify tables_prim tables_get_rel_array)

lemma tables_seeds_active_enter: "keeps (tables_ok M) (seeds_active_enter H F R)"
  unfolding seeds_active_enter_def
  by (intro keeps_seq tables_prim)
     (auto intro!: keeps_seq keeps_modify tables_prim tables_set_seeds)

lemma tables_all_seeds_active_enter: "keeps (tables_ok M) (all_seeds_active_enter H)"
  unfolding all_seeds_active_enter_def
  by (intro keeps_seq tables_prim)
     (auto intro!: keeps_seq keeps_modify tables_prim tables_set_seeds)

lemma tables_exit_scope [simp]: "tables_ok M (exit_scope tok s) = tables_ok M s"
  by (cases tok)
     (auto simp: active_exit_def seeds_active_exit_def activate_nonlinear_exit_def split: saved.splits)

lemma tables_step: "tables_ok M s \<Longrightarrow> step H a (s, stk) = (s', stk') \<Longrightarrow> tables_ok M s'"
proof (cases a)
  case (Enter_active b)
  then show "tables_ok M s \<Longrightarrow> step H a (s, stk) = (s', stk') \<Longrightarrow> ?thesis"
    by (auto simp: active_enter_def split: if_splits)
next
  case (Enter_seeds_active F R)
  then show "tables_ok M s \<Longrightarrow> step H a (s, stk) = (s', stk') \<Longrightarrow> ?thesis"
    using keepsD [OF tables_seeds_active_enter, of M s H F R]
    by (auto split: prod.splits sum.splits)
next
  case Enter_all_seeds_active
  then show "tables_ok M s \<Longrightarrow> step H a (s, stk) = (s', stk') \<Longrightarrow> ?thesis"
    using keepsD [OF tables_all_seeds_active_enter, of M s H]
    by (auto split: prod.splits sum.splits)
next
  case (Enter_activate_nonlinear n b)
  then show "tables_ok M s \<Longrightarrow> step H a (s, stk) = (s', stk') \<Longrightarrow> ?thesis"
    by (auto simp: activate_nonlinear_enter_def split: if_splits)
next
  case Leave
  then show "tables_ok M s \<Longrightarrow> step H a (s, stk) = (s', stk') \<Longrightarrow> ?thesis"
    by (cases stk) auto
qed

lemma tables_run: "tables_ok M s \<Longrightarrow> run H acts (s, stk) = (s', stk') \<Longrightarrow> tables_ok M s'"
proof (induction acts arbitrary: s stk)
  case Nil
  then show ?case by simp
next
  case (Cons a acts)
  obtain s1 stk1 where st: "step H a (s, stk) = (s1, stk1)" by (cases "step H a (s, stk)")
  have "tables_ok M s1" using Cons.prems(1) st by (rule tables_step)
  moreover have "run H acts (s1, stk1) = (s', stk')" using Cons.prems(2) st by simp
  ultimately show ?case by (rule Cons.IH)
qed

lemma tables_store_both [simp]: "tables_ok M (store_both k sub r a s) = tables_ok M s"
  by (simp add: store_both_def)

lemma tables_single_at: "keeps (tables_ok M) (single_at k io n)"
  unfolding single_at_def by (auto intro!: keeps_seq tables_prim split: option.split)

lemma tables_and_of: "keeps (tables_ok M) (and_of H x y)"
  unfolding and_of_def by (intro keeps_seq tables_prim)

lemma tables_union_of: "keeps (tables_ok M) (union_of k io sds)"
  unfolding union_of_def by (intro keeps_seq tables_prim)

lemmas tables_ops = tables_prim tables_names2rel_array tables_get_rel_array tables_set_seeds
  tables_single_at tables_and_of tables_union_of

lemma tables_single_seed_step: "keeps (tables_ok M) (single_seed_step H M' io m)"
  unfolding single_seed_step_def by (intro keeps_seq keeps_modify tables_ops) simp_all

lemma tables_pair_entry: "keeps (tables_ok M) (pair_entry H k sub f r)"
  unfolding pair_entry_def by (intro keeps_seq keeps_modify tables_ops) simp_all

lemma tables_pair_loop: "keeps (tables_ok M) (pair_loop H rkeys f)"
  unfolding pair_loop_def
  by (intro keeps_seq keeps_modify keeps_for_each tables_ops tables_pair_entry) simp_all

lemma tables_side_entry: "keeps (tables_ok M) (side_entry H k io src arr k1 k2)"
  unfolding side_entry_def by (intro keeps_seq keeps_modify tables_ops) simp_all

lemma tables_full_entry: "keeps (tables_ok M) (full_entry H k x y k1 k2)"
  unfolding full_entry_def by (intro keeps_seq keeps_modify tables_ops) simp_all

lemma tables_fill_seed_maps: "keeps (tables_ok M) (fill_seed_maps H fkeys rkeys F R)"
  unfolding fill_seed_maps_def
  by (intro keeps_seq keeps_modify keeps_for_each tables_ops tables_pair_loop tables_side_entry
        tables_full_entry) simp_all

lemma tables_seed_pair: "keeps (tables_ok M) (seed_pair H M' filt a b)"
  unfolding seed_pair_def
  by (auto intro!: keeps_seq tables_ops)

lemma tables_iter_seed_pair_relevance: "keeps (tables_ok M) (iter_seed_pair_relevance H M' i out)"
  unfolding iter_seed_pair_relevance_def
  by (auto intro!: keeps_seq keeps_collect tables_ops tables_seed_pair)

lemma tables_par_deriv_err_check: "keeps (tables_ok M) (par_deriv_err_check H M' rs ds)"
  unfolding par_deriv_err_check_def
  by (auto intro!: keeps_seq tables_ops tables_iter_seed_pair_relevance)

lemma tables_unrestricted: "keeps (tables_ok M) (unrestricted H M' hpd io src)"
  unfolding unrestricted_def
  by (auto intro!: keeps_seq tables_ops split: option.split)

lemma tables_set_no_dv_responses: "keeps (tables_ok M) (set_no_dv_responses H M' hpd fk rk F)"
  unfolding set_no_dv_responses_def
  by (intro keeps_seq keeps_modify keeps_collect tables_ops tables_unrestricted) simp_all

lemma tables_iter_array: "keeps (tables_ok M) (iter_array M' n x y)"
  unfolding iter_array_def by (auto intro!: keeps_seq tables_ops)

lemma tables_setup_nonlinear_sets: "keeps (tables_ok M) (setup_nonlinear_sets H M')"
  unfolding setup_nonlinear_sets_def
  by (intro keeps_seq keeps_modify tables_ops tables_iter_array) simp_all

lemma tables_set_tables [simp]: "tables_ok M (set_tables M s)"
  by (simp add: tables_ok_def set_tables_def)

text \<open>A constructed engine with seeds on both sides has the tables of its model.\<close>

lemma tables_init_body:
  assumes "fwd_meta \<noteq> []" and "rev_meta \<noteq> []"
  shows "valid (\<lambda>s. True) (init_body H M fwd_meta rev_meta) (\<lambda>_. tables_ok M)"
proof -
  have rest: "keeps (tables_ok M) m \<Longrightarrow> valid (tables_ok M) m (\<lambda>_. tables_ok M)" for m :: "'a relevance \<Rightarrow> (error + unit) \<times> 'a relevance"
    by (rule keeps_valid)
  have c: "(fwd_meta = [] \<or> rev_meta = []) = False" using assms by simp
  have "valid (\<lambda>s. True) (set_all_seeds H M fwd_meta rev_meta) (\<lambda>_. tables_ok M)"
    unfolding set_all_seeds_def c if_False
    apply (rule valid_seq [where Q = "\<lambda>_ _. True"])
     apply (simp add: valid_modify)
    apply (rule valid_seq [where Q = "\<lambda>_. tables_ok M"])
     apply (simp add: valid_modify)
    apply (rule keeps_valid)
    apply (intro keeps_seq keeps_for_each tables_ops tables_single_seed_step tables_fill_seed_maps
        tables_set_no_dv_responses)
    apply (simp only: keeps_ret tables_par_deriv_err_check if_split simp_thms)
    done
  moreover have "keeps (tables_ok M)
     (seq (modify (\<lambda>s. s\<lparr>current_rel_varray := None, current_rel_sarray := None\<rparr>)) (\<lambda>_.
      seq (if pre_components M \<noteq> [] \<or> post_components M \<noteq> [] then setup_nonlinear_sets H M
           else modify (\<lambda>s. s\<lparr>nonlinear_sets := Map.empty\<rparr>)) (\<lambda>_.
           if \<not> (fwd_meta \<noteq> [] \<and> rev_meta \<noteq> []) then modify (\<lambda>s. s\<lparr>active := Some False\<rparr>)
           else ret ())))"
    by (auto intro!: keeps_seq keeps_modify keeps_ret tables_setup_nonlinear_sets)
  ultimately show ?thesis
    unfolding init_body_def by (intro valid_seq [where Q = "\<lambda>_. tables_ok M"] keeps_valid)
qed

lemma tables_init:
  assumes "Relevance_init H M fwd_meta rev_meta = Inr s0" and "fwd_meta \<noteq> []" and "rev_meta \<noteq> []"
  shows "tables_ok M s0"
proof -
  from assms(1) obtain u where "init_body H M fwd_meta rev_meta new_relevance = (Inr u, s0)"
    by (auto simp: Relevance_init_def split: if_splits prod.splits sum.splits)
  with tables_init_body [OF assms(2,3)] show ?thesis by (auto simp: valid_def)
qed


subsection \<open>Evaluation of the example\<close>

lemmas step_defs = seq_def ret_def raise_def lift_def gets_def modify_def

lemmas init_defs = Relevance_init_def init_body_def set_all_seeds_def reset_seeds_def set_tables_def
  fill_seed_maps_def frozenset_def has_par_derivs_def is_local_def new_relevance_def
  empty_seed_map_def empty_single_def single_seed_step_def names2rel_array_def enumerate_names_def
  get_cached_array_def get_cached_ref_def set_single_def single_at_def single_map_def single_of_def
  pair_loop_def pair_entry_def store_both_def new_shared_dict_def dict_store_def and_of_def binop_def
  seed_map_of_def set_seed_map_def side_entry_def full_entry_def store2_def new_dict_def ensure_dict_def
  union_of_def union_arrays_def inplace_def set_seeds_def truthy_def get_rel_array_def lookup2_def
  combine_relevance_def set_no_dv_responses_def unrestricted_def array_at_def

lemma init_engine_a: "Relevance_init (\<lambda>x. x) model_a meta_a meta_a = Inr engine_a"
  by (simp add: init_defs step_defs model_a_def meta_a_def engine_a_def)


subsection \<open>An engine without seeds on one side stays inactive\<close>

lemma init_inactive:
  assumes "Relevance_init H M fwd_meta rev_meta = Inr s0" and "fwd_meta = [] \<or> rev_meta = []"
  shows "active s0 = Some False"
proof -
  have c: "(\<not> (fwd_meta \<noteq> [] \<and> rev_meta \<noteq> [])) = True" using assms(2) by simp
  have "valid (\<lambda>s. True) (init_body H M fwd_meta rev_meta) (\<lambda>_ s. active s = Some False)"
    unfolding init_body_def c if_True
    by (intro valid_seq [where Q = "\<lambda>_ _. True"] valid_modify) (simp_all add: valid_def)
  moreover from assms(1) obtain u where "init_body H M fwd_meta rev_meta new_relevance = (Inr u, s0)"
    by (auto simp: Relevance_init_def split: if_splits prod.splits sum.splits)
  ultimately show ?thesis by (auto simp: valid_def)
qed

lemma inactive_seeds_active_enter:
  "active s = Some False \<Longrightarrow> seeds_active_enter H F R s = (Inr Unchanged, s)"
  by (simp add: seeds_active_enter_def step_defs)

lemma inactive_all_seeds_active_enter:
  "active s = Some False \<Longrightarrow> all_seeds_active_enter H s = (Inr Unchanged, s)"
  by (simp add: all_seeds_active_enter_def step_defs)

lemma unchanged_exit: "unchanged tok \<Longrightarrow> exit_scope tok s = s"
  by (cases tok) (simp_all add: active_exit_def seeds_active_exit_def activate_nonlinear_exit_def)

lemma inactive_step:
  assumes "active s = Some False" and "list_all unchanged stk" and "step H a (s, stk) = (s', stk')"
  shows "s' = s \<and> list_all unchanged stk'"
proof (cases a)
  case (Enter_active b)
  then show ?thesis using assms by (auto simp: active_enter_def)
next
  case (Enter_seeds_active F R)
  then show ?thesis using assms by (auto simp: inactive_seeds_active_enter)
next
  case Enter_all_seeds_active
  then show ?thesis using assms by (auto simp: inactive_all_seeds_active_enter)
next
  case (Enter_activate_nonlinear n b)
  then show ?thesis using assms by (auto simp: activate_nonlinear_enter_def)
next
  case Leave
  then show ?thesis using assms by (cases stk) (auto simp: unchanged_exit)
qed

lemma inactive_run:
  "active s = Some False \<Longrightarrow> list_all unchanged stk \<Longrightarrow> run H acts (s, stk) = (s', stk') \<Longrightarrow> s' = s"
proof (induction acts arbitrary: stk)
  case Nil
  then show ?case by simp
next
  case (Cons a acts)
  obtain s1 stk1 where st: "step H a (s, stk) = (s1, stk1)" by (cases "step H a (s, stk)")
  have "s1 = s \<and> list_all unchanged stk1" using Cons.prems(1,2) st by (rule inactive_step)
  moreover have "run H acts (s1, stk1) = (s', stk')" using Cons.prems(3) st by simp
  ultimately show ?case using Cons.IH Cons.prems(1) by blast
qed

text \<open>
  Claim C2. An engine that was constructed with empty forward or empty reverse seed
  metadata answers \<open>True\<close> to \<open>is_relevant\<close> and \<open>is_relevant_system\<close> for every
  name, in the graph or not, and it stays inactive whatever scopes are entered and left
  afterwards.
\<close>

theorem inactive_engine_always_relevant:
  assumes "Relevance_init H M fwd_meta rev_meta = Inr s0"
    and "fwd_meta = [] \<or> rev_meta = []"
    and "run H acts (s0, []) = (s, stk)"
  shows "is_relevant name s = Inr True \<and> is_relevant_system name s = Inr True
         \<and> active s = Some False"
proof -
  have a: "active s0 = Some False" using assms(1,2) by (rule init_inactive)
  have "s = s0" using a _ assms(3) by (rule inactive_run) simp
  with a show ?thesis by (simp add: is_relevant_def is_relevant_system_def)
qed

lemma init_inactive_a: "\<exists>s0. Relevance_init (\<lambda>x. x) model_a [] meta_a = Inr s0"
  by (simp add: init_defs step_defs model_a_def meta_a_def)

theorem inactive_engine_always_relevant_witness:
  "\<exists>s0. Relevance_init (\<lambda>x. x) model_a [] meta_a = Inr s0
     \<and> ([] = ([] :: (string \<times> meta) list) \<or> meta_a = [])
     \<and> is_relevant ''not in the graph''
          (fst (run (\<lambda>x. x) [Enter_seeds_active (Some [''a'']) None, Enter_active True, Leave] (s0, [])))
        = Inr True
     \<and> is_relevant_system ''not in the graph''
          (fst (run (\<lambda>x. x) [Enter_seeds_active (Some [''a'']) None, Enter_active True, Leave] (s0, [])))
        = Inr True"
proof -
  obtain s0 where i: "Relevance_init (\<lambda>x. x) model_a [] meta_a = Inr s0"
    using init_inactive_a by blast
  have e: "[] = ([] :: (string \<times> meta) list) \<or> meta_a = []" by simp
  have r: "run (\<lambda>x. x) [Enter_seeds_active (Some [''a'']) None, Enter_active True, Leave] (s0, [])
        = (fst (run (\<lambda>x. x) [Enter_seeds_active (Some [''a'']) None, Enter_active True, Leave] (s0, [])),
           snd (run (\<lambda>x. x) [Enter_seeds_active (Some [''a'']) None, Enter_active True, Leave] (s0, [])))"
    by simp
  show ?thesis
    using inactive_engine_always_relevant [OF i e r, of "''not in the graph''"] i by blast
qed

subsection \<open>Names outside the index tables\<close>

lemma enumerate_names_None: "enumerate_names ns n = None \<longleftrightarrow> n \<notin> set ns"
proof -
  have "fst ` set (zip ns [0..<length ns]) = set ns"
    by (metis length_upt diff_zero map_fst_zip set_map)
  then show ?thesis by (simp add: enumerate_names_def map_of_eq_None_iff)
qed

lemma subscript_no_KeyError: "subscript hp arr i \<noteq> Inl KeyError"
  by (simp add: subscript_def split: option.splits)

lemma is_relevant_KeyError:
  "active s = Some True \<Longrightarrow> var2idx s = Some t \<Longrightarrow> (is_relevant name s = Inl KeyError) = (t name = None)"
  by (cases "t name") (simp_all add: is_relevant_def index_of_def subscript_no_KeyError)

lemma is_relevant_system_KeyError:
  "active s = Some True \<Longrightarrow> sys2idx s = Some t \<Longrightarrow> (is_relevant_system name s = Inl KeyError) = (t name = None)"
  by (cases "t name") (simp_all add: is_relevant_system_def index_of_def subscript_no_KeyError)

text \<open>
  Claim C10. In an active engine \<open>is_relevant\<close> and \<open>is_relevant_system\<close> raise
  \<open>KeyError\<close> for every name that is not in the index table built at construction, and
  never for a name in the table; an engine that is not active answers \<open>True\<close> for every
  name.
\<close>

theorem active_engine_rejects_unknown_names:
  assumes "Relevance_init H M fwd_meta rev_meta = Inr s0"
    and "run H acts (s0, []) = (s, stk)"
  shows "(active s = Some True \<longrightarrow>
            (is_relevant name s = Inl KeyError \<longleftrightarrow> name \<notin> set (graph_vars M))
          \<and> (is_relevant_system name s = Inl KeyError \<longleftrightarrow> name \<notin> set (graph_systems M)))
       \<and> (active s \<noteq> Some True \<longrightarrow>
            is_relevant name s = Inr True \<and> is_relevant_system name s = Inr True)"
proof (cases "active s = Some True")
  case False
  then show ?thesis by (simp add: is_relevant_def is_relevant_system_def)
next
  case True
  have "\<not> (fwd_meta = [] \<or> rev_meta = [])"
    using inactive_engine_always_relevant [OF assms(1) _ assms(2)] True by auto
  then have "tables_ok M s0" using tables_init [OF assms(1)] by simp
  then have t: "tables_ok M s" using assms(2) by (rule tables_run)
  show ?thesis using True t
    by (simp add: is_relevant_KeyError is_relevant_system_KeyError tables_ok_def enumerate_names_None)
qed

lemma enter_engine_a:
  "run (\<lambda>x. x) [Enter_seeds_active None None] (engine_a, [])
   = (engine_a\<lparr>active := Some True, current_rel_varray := Some 0, current_rel_sarray := Some 0\<rparr>,
      [T_seeds (Saved ((Frozenset [''a''], Frozenset [''a'']), None))])"
  by (simp add: seeds_active_enter_def set_seeds_def get_rel_array_def lookup2_def seed_map_of_def
      truthy_def step_defs engine_a_def)

theorem active_engine_rejects_unknown_names_witness:
  "active (fst (run (\<lambda>x. x) [Enter_seeds_active None None] (engine_a, []))) = Some True
   \<and> ''b'' \<notin> set (graph_vars model_a)
   \<and> is_relevant ''b'' (fst (run (\<lambda>x. x) [Enter_seeds_active None None] (engine_a, []))) = Inl KeyError
   \<and> is_relevant ''a'' (fst (run (\<lambda>x. x) [Enter_seeds_active None None] (engine_a, []))) = Inr True
   \<and> active engine_a \<noteq> Some True
   \<and> is_relevant ''b'' engine_a = Inr True"
proof -
  let ?s = "engine_a\<lparr>active := Some True, current_rel_varray := Some 0, current_rel_sarray := Some 0\<rparr>"
  have a: "active ?s = Some True" by simp
  have b: "''b'' \<notin> set (graph_vars model_a)" by (simp add: model_a_def)
  have c: "is_relevant ''a'' ?s = Inr True"
    by (simp add: is_relevant_def index_of_def subscript_def engine_a_def)
  have d: "active engine_a \<noteq> Some True" by (simp add: engine_a_def)
  have r0: "run (\<lambda>x. x) [] (engine_a, []) = (engine_a, [])" by simp
  have e: "is_relevant ''b'' ?s = Inl KeyError"
    using active_engine_rejects_unknown_names [OF init_engine_a enter_engine_a, of "''b''"] a b
    by simp
  have f: "is_relevant ''b'' engine_a = Inr True"
    using active_engine_rejects_unknown_names [OF init_engine_a r0, of "''b''"] d
    by simp
  show ?thesis unfolding enter_engine_a fst_conv using a b c d e f by simp
qed


section \<open>Proofs about \<open>_update_coloring\<close>\<close>

lemma coloring_loop_None:
  "coloring_loop wm None reqs (nl, ne, cs)
   = (nl @ filter (is_colored wm) reqs, ne, cs \<union> fst ` set (filter (is_colored wm) reqs))"
  by (induction reqs arbitrary: nl cs) auto

lemma coloring_loop_entry:
  "i < length nl \<Longrightarrow>
   coloring_loop wm (Some c) reqs (nl, Some i, cs)
   = (nl[i := foldl (\<lambda>e t. append_approx t e) (nl ! i) (filter (is_colored wm) reqs)], Some i,
      cs \<union> fst ` set (filter (is_colored wm) reqs))"
  by (induction reqs arbitrary: nl cs) auto

lemma foldl_append_approx:
  "foldl (\<lambda>e t. append_approx t e) (k, Options col (Some l) o') ts = (k, Options col (Some (l @ ts)) o')"
  by (induction ts arbitrary: l) (auto simp: append_approx_def)

lemma coloring_loop_Some:
  "coloring_loop wm (Some c) reqs ([], None, {})
   = (case filter (is_colored wm) reqs of
        [] \<Rightarrow> ([], None, {})
      | t # ts \<Rightarrow> ([((None, None), Options (Some c) (Some (t # ts)) (opt_other (snd t)))], Some 0,
                   fst ` set (t # ts)))"
proof (induction reqs)
  case Nil
  show ?case by simp
next
  case (Cons r reqs)
  show ?case
  proof (cases "is_colored wm r")
    case True
    then show ?thesis
      by (simp add: coloring_loop_entry colored_entry_def foldl_append_approx)
  next
    case False
    then show ?thesis using Cons by simp
  qed
qed

text \<open>
  Claim C6, as the code has it. When no request is colored, nothing changes. Otherwise,
  with \<open>coloring = None\<close> all colored requests are kept, in order and with their
  duplicates, followed by the requests whose key is not the key of a colored request; with
  a coloring the colored requests are replaced by one entry with the key
  \<open>(None, None)\<close>, which carries the coloring and the list of all colored requests, again
  followed by the requests whose key is not the key of a colored request. In both cases
  the approximation groups are reset.
\<close>

theorem update_coloring_result:
  "exec_list (update_coloring wm coloring sch)
   = (case colored_requests wm (exec_list sch) of
        [] \<Rightarrow> exec_list sch
      | t # ts \<Rightarrow>
          (case coloring of
             None \<Rightarrow> t # ts
           | Some c \<Rightarrow> [((None, None), Options (Some c) (Some (t # ts)) (opt_other (snd t)))])
          @ uncolored_rest wm (exec_list sch))
   \<and> approx_groups (update_coloring wm coloring sch)
     = (if colored_requests wm (exec_list sch) = [] then approx_groups sch else None)"
proof -
  define m where "m = colored_requests wm (exec_list sch)"
  define rest where "rest = uncolored_rest wm (exec_list sch)"
  have rest_eq: "rest = filter (\<lambda>tup. fst tup \<notin> fst ` set m) (exec_list sch)"
    by (simp add: rest_def m_def uncolored_rest_def)
  have m_eq: "filter (is_colored (case wm of None \<Rightarrow> [] | Some w \<Rightarrow> w)) (exec_list sch) = m"
    by (simp add: m_def colored_requests_def)
  show ?thesis
  proof (cases m)
    case Nil
    then have "update_coloring wm coloring sch = sch"
      by (cases coloring) (simp_all add: update_coloring_def coloring_loop_None coloring_loop_Some m_eq)
    then show ?thesis using Nil by (simp add: m_def [symmetric])
  next
    case (Cons t ts)
    show ?thesis
    proof (cases coloring)
      case None
      have "update_coloring wm coloring sch = sch\<lparr>exec_list := m @ rest, approx_groups := None\<rparr>"
        using Cons None by (simp add: update_coloring_def coloring_loop_None m_eq rest_eq)
      then show ?thesis using Cons None
        by (simp add: m_def [symmetric] rest_def [symmetric])
    next
      case (Some c)
      have "update_coloring wm coloring sch
            = sch\<lparr>exec_list := ((None, None), Options (Some c) (Some (t # ts)) (opt_other (snd t))) # rest,
                  approx_groups := None\<rparr>"
        using Cons Some by (simp add: update_coloring_def coloring_loop_Some m_eq rest_eq)
      then show ?thesis using Cons Some
        by (simp add: m_def [symmetric] rest_def [symmetric])
    qed
  qed
qed

theorem update_coloring_keeps_duplicates:
  "\<not> distinct (map fst (colored_requests (Some [''x'']) (exec_list (update_coloring (Some [''x'']) None twice))))"
  by (simp add: update_coloring_def twice_def is_colored_def colored_requests_def)

theorem update_coloring_result_witness:
  "exec_list (update_coloring (Some [''x'']) (Some (7::nat)) twice)
   = [((None, None), Options (Some 7) (Some (exec_list twice)) ())]
   \<and> exec_list (update_coloring (Some [''z'']) (Some (7::nat)) twice) = exec_list twice
   \<and> approx_groups (update_coloring (Some [''x'']) (Some (7::nat)) twice) = None"
  using update_coloring_result [of "Some [''x'']" "Some (7::nat)" twice]
    update_coloring_result [of "Some [''z'']" "Some (7::nat)" twice]
  by (simp add: colored_requests_def uncolored_rest_def is_colored_def twice_def)


section \<open>Proofs about the nonlinear partition\<close>

lemma add_members_eq: "add_members t xs target = target \<union> component_of t ` set xs"
  by (induction xs arbitrary: target) auto

text \<open>
  The walk assigns the nodes of every component to exactly one of the three sets: the
  result is the image, under the component name, of three disjoint sets of nodes that
  together are all nodes.
\<close>

lemma scc_walk_nodes:
  "distinct (concat cs) \<Longrightarrow>
   \<exists>P I Q. scc_walk t d cs b (pre, iterated, post)
             = (pre \<union> component_of t ` P, iterated \<union> component_of t ` I, post \<union> component_of t ` Q)
           \<and> P \<union> I \<union> Q = set (concat cs) \<and> P \<inter> I = {} \<and> P \<inter> Q = {} \<and> I \<inter> Q = {}"
proof (induction cs arbitrary: b pre iterated post)
  case Nil
  show ?case by (rule exI [of _ "{}"], rule exI [of _ "{}"], rule exI [of _ "{}"]) simp
next
  case (Cons c cs)
  have d: "distinct (concat cs)" and new: "set c \<inter> set (concat cs) = {}"
    using Cons.prems by auto
  let ?C = "component_of t ` set c"
  consider (dv) "d \<in> set c" | (post) "d \<notin> set c" "b" | (pre) "d \<notin> set c" "\<not> b" by blast
  then show ?case
  proof cases
    case dv
    from Cons.IH [OF d, of True pre "iterated \<union> ?C" post]
    obtain P I Q where w: "scc_walk t d cs True (pre, iterated \<union> ?C, post)
        = (pre \<union> component_of t ` P, iterated \<union> ?C \<union> component_of t ` I, post \<union> component_of t ` Q)"
      and u: "P \<union> I \<union> Q = set (concat cs)" and dj: "P \<inter> I = {}" "P \<inter> Q = {}" "I \<inter> Q = {}"
      by blast
    have sub: "set c \<inter> P = {}" "set c \<inter> I = {}" "set c \<inter> Q = {}" using u new by blast+
    have eq: "scc_walk t d (c # cs) b (pre, iterated, post)
        = (pre \<union> component_of t ` (P), iterated \<union> component_of t ` (set c \<union> I), post \<union> component_of t ` (Q))"
      using dv w by (simp add: add_members_eq image_Un Un_assoc)
    have all: "(P) \<union> (set c \<union> I) \<union> (Q) = set (concat (c # cs))" using u by auto
    have "(P) \<inter> (set c \<union> I) = {}" "(P) \<inter> (Q) = {}" "(set c \<union> I) \<inter> (Q) = {}"
      using dj sub by blast+
    with eq all show ?thesis by blast
  next
    case post
    from Cons.IH [OF d, of b pre iterated "post \<union> ?C"]
    obtain P I Q where w: "scc_walk t d cs b (pre, iterated, post \<union> ?C)
        = (pre \<union> component_of t ` P, iterated \<union> component_of t ` I, post \<union> ?C \<union> component_of t ` Q)"
      and u: "P \<union> I \<union> Q = set (concat cs)" and dj: "P \<inter> I = {}" "P \<inter> Q = {}" "I \<inter> Q = {}"
      by blast
    have sub: "set c \<inter> P = {}" "set c \<inter> I = {}" "set c \<inter> Q = {}" using u new by blast+
    have eq: "scc_walk t d (c # cs) b (pre, iterated, post)
        = (pre \<union> component_of t ` (P), iterated \<union> component_of t ` (I), post \<union> component_of t ` (set c \<union> Q))"
      using post w by (simp add: add_members_eq image_Un Un_assoc)
    have all: "(P) \<union> (I) \<union> (set c \<union> Q) = set (concat (c # cs))" using u by auto
    have "(P) \<inter> (I) = {}" "(P) \<inter> (set c \<union> Q) = {}" "(I) \<inter> (set c \<union> Q) = {}"
      using dj sub by blast+
    with eq all show ?thesis by blast
  next
    case pre
    from Cons.IH [OF d, of b "pre \<union> ?C" iterated post]
    obtain P I Q where w: "scc_walk t d cs b (pre \<union> ?C, iterated, post)
        = (pre \<union> ?C \<union> component_of t ` P, iterated \<union> component_of t ` I, post \<union> component_of t ` Q)"
      and u: "P \<union> I \<union> Q = set (concat cs)" and dj: "P \<inter> I = {}" "P \<inter> Q = {}" "I \<inter> Q = {}"
      by blast
    have sub: "set c \<inter> P = {}" "set c \<inter> I = {}" "set c \<inter> Q = {}" using u new by blast+
    have eq: "scc_walk t d (c # cs) b (pre, iterated, post)
        = (pre \<union> component_of t ` (set c \<union> P), iterated \<union> component_of t ` (I), post \<union> component_of t ` (Q))"
      using pre w by (simp add: add_members_eq image_Un Un_assoc)
    have all: "(set c \<union> P) \<union> (I) \<union> (Q) = set (concat (c # cs))" using u by auto
    have "(set c \<union> P) \<inter> (I) = {}" "(set c \<union> P) \<inter> (Q) = {}" "(I) \<inter> (Q) = {}"
      using dj sub by blast+
    with eq all show ?thesis by blast
  qed
qed

text \<open>Names of nodes in different sets differ, unless one of them is \<open>_auto_ivc\<close>.\<close>

lemma images_meet:
  assumes "A \<inter> B = {}"
    and "\<forall>s \<in> A \<union> B. t s \<longrightarrow> rpartition_head s = ''_auto_ivc''"
  shows "component_of t ` A \<inter> component_of t ` B \<subseteq> {''_auto_ivc''}"
proof
  fix x
  assume "x \<in> component_of t ` A \<inter> component_of t ` B"
  then obtain a b where ab: "a \<in> A" "b \<in> B" "x = component_of t a" "x = component_of t b" by blast
  then have "a \<noteq> b" using assms(1) by blast
  then have "t a \<or> t b" using ab by (auto simp: component_of_def split: if_splits)
  then show "x \<in> {''_auto_ivc''}" using ab assms(2) by (auto simp: component_of_def)
qed

lemma adjust_pre_sets:
  "adjust_pre inp pre = Inr pre' \<Longrightarrow> pre' \<subseteq> insert ''_auto_ivc'' pre \<and> pre - {''_auto_ivc''} \<subseteq> pre'"
  by (auto simp: adjust_pre_def split: if_splits sum.splits)

text \<open>
  Claim C5, as the code has it. The node sets of the strongly connected components are
  disjoint, and the only nodes with a \<open>type_\<close> attribute are variables of
  \<open>_auto_ivc\<close>. Then, before the added groups are subtracted, the three sets cover every
  component name that the walk reached, except possibly \<open>_auto_ivc\<close>, and contain
  nothing else; and two of the sets, before or after the subtraction, have no name in
  common except possibly \<open>_auto_ivc\<close>.
\<close>

theorem partition_sets_cover_and_overlap:
  assumes "partition_sets inp = Inr (pre, iterated, post)"
    and "distinct (concat (sccs inp))"
    and "\<forall>s \<in> set (concat (sccs inp)). typed inp s \<longrightarrow> rpartition_head s = ''_auto_ivc''"
  shows "pre \<union> iterated \<union> post \<union> {''_auto_ivc''} = reached inp \<union> {''_auto_ivc''}
       \<and> pre \<inter> iterated \<subseteq> {''_auto_ivc''}
       \<and> pre \<inter> post \<subseteq> {''_auto_ivc''}
       \<and> iterated \<inter> post \<subseteq> {''_auto_ivc''}
       \<and> setup_nonlinear_relevance inp
           = Inr (pre - groups_added inp, iterated - groups_added inp, post - groups_added inp)"
proof -
  let ?f = "component_of (typed inp)"
  from scc_walk_nodes [OF assms(2), of "typed inp" "dv0 inp" False "{}" "{}" "{}"]
  obtain P I Q where w: "scc_walk (typed inp) (dv0 inp) (sccs inp) False ({}, {}, {}) = (?f ` P, ?f ` I, ?f ` Q)"
    and u: "P \<union> I \<union> Q = set (concat (sccs inp))"
    and dj: "P \<inter> I = {}" "P \<inter> Q = {}" "I \<inter> Q = {}"
    by auto
  from assms(1) w have a: "adjust_pre inp (?f ` P) = Inr pre" and i: "iterated = ?f ` I" and q: "post = ?f ` Q"
    by (auto simp: partition_sets_def split: sum.splits)
  have p: "pre \<subseteq> insert ''_auto_ivc'' (?f ` P)" "?f ` P - {''_auto_ivc''} \<subseteq> pre"
    using adjust_pre_sets [OF a] by auto
  have r: "reached inp = ?f ` P \<union> ?f ` I \<union> ?f ` Q"
    unfolding reached_def u [symmetric] by (simp add: image_Un)
  have t: "\<forall>s \<in> P \<union> I. typed inp s \<longrightarrow> rpartition_head s = ''_auto_ivc''"
    "\<forall>s \<in> P \<union> Q. typed inp s \<longrightarrow> rpartition_head s = ''_auto_ivc''"
    "\<forall>s \<in> I \<union> Q. typed inp s \<longrightarrow> rpartition_head s = ''_auto_ivc''"
    using assms(3) unfolding u [symmetric] by blast+
  have m: "?f ` P \<inter> ?f ` I \<subseteq> {''_auto_ivc''}" "?f ` P \<inter> ?f ` Q \<subseteq> {''_auto_ivc''}"
    "?f ` I \<inter> ?f ` Q \<subseteq> {''_auto_ivc''}"
    using images_meet [OF dj(1) t(1)] images_meet [OF dj(2) t(2)] images_meet [OF dj(3) t(3)]
    by auto
  have c1: "pre \<union> iterated \<union> post \<union> {''_auto_ivc''} = reached inp \<union> {''_auto_ivc''}"
    using p unfolding r i q by blast
  have c2: "pre \<inter> iterated \<subseteq> {''_auto_ivc''}" using p m(1) unfolding i by blast
  have c3: "pre \<inter> post \<subseteq> {''_auto_ivc''}" using p m(2) unfolding q by blast
  have c4: "iterated \<inter> post \<subseteq> {''_auto_ivc''}" using m(3) unfolding i q by blast
  have c5: "setup_nonlinear_relevance inp
           = Inr (pre - groups_added inp, iterated - groups_added inp, post - groups_added inp)"
    using assms(1) by (simp add: setup_nonlinear_relevance_def)
  show ?thesis using c1 c2 c3 c4 c5 by blast
qed

lemma partition_auto_dv_model:
  "partition_sets auto_dv_model = Inr ({''_auto_ivc'', ''p''}, {''_auto_ivc'', ''c''}, {})"
  by (simp add: partition_sets_def auto_dv_model_def adjust_pre_def component_of_def rpartition_head_def
      insert_commute)

lemma partition_comp_dv_model: "partition_sets comp_dv_model = Inr ({}, {''c'', ''d''}, {})"
  by (simp add: partition_sets_def comp_dv_model_def adjust_pre_def component_of_def rpartition_head_def
      insert_commute)

theorem partition_sets_cover_and_overlap_witness:
  "{''_auto_ivc'', ''p''} \<union> {''_auto_ivc'', ''c''} \<union> {} \<union> {''_auto_ivc''}
     = reached auto_dv_model \<union> {''_auto_ivc''}
   \<and> {''_auto_ivc'', ''p''} \<inter> {''_auto_ivc'', ''c''} \<subseteq> {''_auto_ivc''}
   \<and> setup_nonlinear_relevance auto_dv_model = Inr ({''_auto_ivc'', ''p''}, {''_auto_ivc'', ''c''}, {})"
proof -
  have d: "distinct (concat (sccs auto_dv_model))" by (simp add: auto_dv_model_def)
  have t: "\<forall>s \<in> set (concat (sccs auto_dv_model)). typed auto_dv_model s \<longrightarrow> rpartition_head s = ''_auto_ivc''"
    by (simp add: auto_dv_model_def rpartition_head_def)
  have g: "groups_added auto_dv_model = {}" by (simp add: auto_dv_model_def)
  show ?thesis
    using partition_sets_cover_and_overlap [OF partition_auto_dv_model d t] g by simp
qed

text \<open>
  The claim as it is written fails on both counts: in the first model \<open>_auto_ivc\<close> is
  in \<open>pre\<close> and in \<open>iterated\<close>, in the second it was reached by the walk and is in
  none of the three sets.
\<close>

theorem partition_sets_overlap_and_gap:
  "partition_sets auto_dv_model = Inr ({''_auto_ivc'', ''p''}, {''_auto_ivc'', ''c''}, {})
   \<and> {''_auto_ivc'', ''p''} \<inter> {''_auto_ivc'', ''c''} \<noteq> {}
   \<and> partition_sets comp_dv_model = Inr ({}, {''c'', ''d''}, {})
   \<and> {} \<union> {''c'', ''d''} \<union> {} \<noteq> reached comp_dv_model"
proof -
  have a: "''_auto_ivc'' \<in> reached comp_dv_model"
    by (simp add: reached_def comp_dv_model_def component_of_def)
  have b: "''_auto_ivc'' \<notin> {} \<union> {''c'', ''d''} \<union> {}" by simp
  have c: "{} \<union> {''c'', ''d''} \<union> {} \<noteq> reached comp_dv_model" using a b by metis
  have d: "''_auto_ivc'' \<in> {''_auto_ivc'', ''p''} \<inter> {''_auto_ivc'', ''c''}" by simp
  have e: "{''_auto_ivc'', ''p''} \<inter> {''_auto_ivc'', ''c''} \<noteq> {}" using d by blast
  show ?thesis using partition_auto_dv_model partition_comp_dv_model c e by blast
qed


subsection \<open>Growing the heap and the cache\<close>

lemma grows_refl: "grows s s"
  unfolding grows_def by (rule exI [of _ "[]"], rule exI [of _ "rel_array_cache s"]) simp

lemma grows_fields:
  assumes "grows s s'"
  shows "seed_var_map s' = seed_var_map s" "seed_sys_map s' = seed_sys_map s"
    "single_seed2relvars s' = single_seed2relvars s" "single_seed2relsys s' = single_seed2relsys s"
    "current_rel_varray s' = current_rel_varray s" "current_rel_sarray s' = current_rel_sarray s"
    "nonlinear_sets s' = nonlinear_sets s" "all_seed_vars s' = all_seed_vars s"
    "seed_vars s' = seed_vars s" "active s' = active s"
  using assms by (auto simp: grows_def)

lemma grows_maps:
  assumes "grows s s'"
  shows "seed_map_of k s' = seed_map_of k s" "single_map k io s' = single_map k io s"
  using grows_fields [OF assms]
  by (simp_all add: seed_map_of_def single_map_def single_of_def split: kind.splits direction.splits)

lemma grows_heap:
  assumes "grows s s'"
  shows "length (heap s) \<le> length (heap s')" "a < length (heap s) \<Longrightarrow> heap s' ! a = heap s ! a"
  using assms by (auto simp: grows_def nth_append)

lemma grows_cache: "grows s s' \<Longrightarrow> rel_array_cache s h = Some a \<Longrightarrow> rel_array_cache s' h = Some a"
  by (auto simp: grows_def map_le_def dom_def)

lemma grows_canonical:
  assumes "grows s s'" and "canonical H s a"
  shows "canonical H s' a"
proof -
  have a: "a < length (heap s)" and c: "rel_array_cache s (H (heap s ! a)) = Some a"
    using assms(2) by (auto simp: canonical_def)
  have "heap s' ! a = heap s ! a" "a < length (heap s')"
    using grows_heap [OF assms(1)] a by auto
  moreover have "rel_array_cache s' (H (heap s ! a)) = Some a"
    using assms(1) c by (rule grows_cache)
  ultimately show ?thesis by (simp add: canonical_def)
qed

lemma grows_trans: "grows s s' \<Longrightarrow> grows s' s'' \<Longrightarrow> grows s s''"
proof -
  assume "grows s s'" and "grows s' s''"
  then obtain e1 c1 e2 c2 where a: "s' = s\<lparr>heap := heap s @ e1, rel_array_cache := c1\<rparr>"
    "rel_array_cache s \<subseteq>\<^sub>m c1" "s'' = s'\<lparr>heap := heap s' @ e2, rel_array_cache := c2\<rparr>"
    "rel_array_cache s' \<subseteq>\<^sub>m c2"
    by (auto simp: grows_def)
  have "s'' = s\<lparr>heap := heap s @ (e1 @ e2), rel_array_cache := c2\<rparr>" using a(1,3) by simp
  moreover have "rel_array_cache s \<subseteq>\<^sub>m c2" using a by (auto intro: map_le_trans)
  ultimately show ?thesis unfolding grows_def by blast
qed

subsection \<open>Stable predicates\<close>

lemma stableI: "(\<And>s s'. cache_ok H s \<Longrightarrow> grows s s' \<Longrightarrow> P s \<Longrightarrow> P s') \<Longrightarrow> stable H P"
  by (simp add: stable_def)

lemma stableD: "stable H P \<Longrightarrow> cache_ok H s \<Longrightarrow> grows s s' \<Longrightarrow> P s \<Longrightarrow> P s'"
  unfolding stable_def by blast

lemma stable_conj: "stable H P \<Longrightarrow> stable H Q \<Longrightarrow> stable H (\<lambda>s. P s \<and> Q s)"
  unfolding stable_def by blast

lemma stable_const: "stable H (\<lambda>s. A)"
  by (simp add: stable_def)

lemma stable_canonical: "stable H (\<lambda>s. canonical H s a)"
  by (rule stableI) (rule grows_canonical)

lemma stable_content: "stable H (\<lambda>s. canonical H s a \<and> heap s ! a = c)"
proof (rule stableI)
  fix s s' :: "'a relevance"
  assume g: "grows s s'" and p: "canonical H s a \<and> heap s ! a = c"
  have "heap s' ! a = heap s ! a" using grows_heap [OF g] p by (simp add: canonical_def)
  then show "canonical H s' a \<and> heap s' ! a = c" using p grows_canonical [OF g] by simp
qed

lemma stable_singles_wf: "stable H (singles_wf H N)"
proof (rule stableI)
  fix s s' :: "'a relevance"
  assume g: "grows s s'" and w: "singles_wf H N s"
  show "singles_wf H N s'"
    unfolding singles_wf_def
  proof (intro allI impI)
    fix k io n a
    assume "single_map k io s' n = Some a"
    then have "single_map k io s n = Some a" using grows_maps [OF g] by simp
    then have c: "canonical H s a" and l: "length (heap s ! a) = N k"
      using w by (auto simp: singles_wf_def)
    have "heap s' ! a = heap s ! a" using c grows_heap [OF g] by (simp add: canonical_def)
    with c l show "canonical H s' a \<and> length (heap s' ! a) = N k"
      using grows_canonical [OF g] by simp
  qed
qed

lemma single_content_grows:
  assumes "grows s s'" and "singles_wf H N s"
  shows "single_content k io s' = single_content k io s"
proof
  fix n
  show "single_content k io s' n = single_content k io s n"
  proof (cases "single_map k io s n")
    case None
    then show ?thesis using grows_maps [OF assms(1)] by (simp add: single_content_def)
  next
    case (Some a)
    then have "a < length (heap s)" using assms(2) by (auto simp: singles_wf_def canonical_def)
    then have "heap s' ! a = heap s ! a" using grows_heap [OF assms(1)] by simp
    then show ?thesis using Some grows_maps [OF assms(1)] by (simp add: single_content_def)
  qed
qed

lemma dict_ok_mono:
  "dict_ok m can good \<Longrightarrow> (\<And>a. can a \<Longrightarrow> can' a) \<Longrightarrow> (\<And>F R a. can a \<Longrightarrow> good F R a \<Longrightarrow> good' F R a) \<Longrightarrow>
   dict_ok m can' good'"
  unfolding dict_ok_def by blast

lemma stable_entries_ok: "stable H (entries_ok H N C)"
proof (rule stableI)
  fix s s' :: "'a relevance"
  assume co: "cache_ok H s" and g: "grows s s'" and e: "entries_ok H N C s"
  have w: "singles_wf H N s" using e by (simp add: entries_ok_def)
  have w': "singles_wf H N s'" using stable_singles_wf co g w by (rule stableD)
  have c': "\<forall>k io. single_content k io s' = C k io"
    using e single_content_grows [OF g w] by (simp add: entries_ok_def)
  have d': "dict_ok (seed_map_of k s') (canonical H s')
              (\<lambda>F R a. heap s' ! a = and_of_unions (N k) (C k Fwd) (C k Rev) F R)" for k
  proof -
    have "dict_ok (seed_map_of k s) (canonical H s)
              (\<lambda>F R a. heap s ! a = and_of_unions (N k) (C k Fwd) (C k Rev) F R)"
      using e by (simp add: entries_ok_def)
    then show ?thesis
      unfolding grows_maps [OF g]
    proof (rule dict_ok_mono)
      fix a assume "canonical H s a"
      then show "canonical H s' a" using g by (rule grows_canonical [rotated])
    next
      fix F R a
      assume "canonical H s a" and "heap s ! a = and_of_unions (N k) (C k Fwd) (C k Rev) F R"
      then show "heap s' ! a = and_of_unions (N k) (C k Fwd) (C k Rev) F R"
        using grows_heap [OF g] by (simp add: canonical_def)
    qed
  qed
  show "entries_ok H N C s'" using w' c' d' by (simp add: entries_ok_def)
qed

subsection \<open>The cache\<close>

text \<open>
  With an injective hash, \<open>_get_cached_array\<close> returns a canonical array with the
  content of its argument, and everything stable stays true.
\<close>

lemma get_cached_array_grows:
  assumes "cache_ok H s" and "get_cached_array H arr s = (r, s')"
  shows "\<exists>a. r = Inr a \<and> cache_ok H s' \<and> grows s s' \<and> canonical H s' a \<and> H (heap s' ! a) = H arr"
proof (cases "rel_array_cache s (H arr)")
  case (Some a)
  then have "r = Inr a" "s' = s" using assms(2) by (auto simp: get_cached_array_def)
  moreover have "canonical H s a \<and> H (heap s ! a) = H arr"
    using assms(1) Some by (auto simp: cache_ok_def canonical_def)
  ultimately show ?thesis using assms(1) grows_refl by blast
next
  case None
  let ?a = "length (heap s)"
  have r: "r = Inr ?a" and s': "s' = s\<lparr>heap := heap s @ [arr], rel_array_cache := (rel_array_cache s)(H arr \<mapsto> ?a)\<rparr>"
    using assms(2) None by (auto simp: get_cached_array_def)
  have g: "grows s s'"
    unfolding grows_def s' using None
    by (intro exI [of _ "[arr]"] exI [of _ "(rel_array_cache s)(H arr \<mapsto> ?a)"]) (auto simp: map_le_def)
  have c: "cache_ok H s'"
    using assms(1) unfolding cache_ok_def s'
    by (auto simp: nth_append less_Suc_eq)
  have "canonical H s' ?a \<and> H (heap s' ! ?a) = H arr"
    unfolding s' by (simp add: canonical_def)
  with r g c show ?thesis by blast
qed

lemma triple_get_cached_array:
  assumes "inj H" and "stable H P"
  shows "triple (\<lambda>s. cache_ok H s \<and> P s) (get_cached_array H arr)
           (\<lambda>a s. cache_ok H s \<and> P s \<and> canonical H s a \<and> heap s ! a = arr) E"
proof (rule tripleI)
  fix s x s'
  assume p: "cache_ok H s \<and> P s" and e: "get_cached_array H arr s = (Inr x, s')"
  from get_cached_array_grows [OF _ e] p
  have c: "cache_ok H s'" and g: "grows s s'" and k: "canonical H s' x" and h: "H (heap s' ! x) = H arr"
    by auto
  have "P s'" using assms(2) p g by (auto dest: stableD)
  moreover have "heap s' ! x = arr" using h assms(1) by (auto dest: injD)
  ultimately show "cache_ok H s' \<and> P s' \<and> canonical H s' x \<and> heap s' ! x = arr" using c k by simp
next
  fix s e s'
  assume "cache_ok H s \<and> P s" and "get_cached_array H arr s = (Inl e, s')"
  then show "E s'" using get_cached_array_grows [of H s arr "Inl e" s'] by auto
qed

lemma get_cached_ref_canonical: "canonical H s a \<Longrightarrow> get_cached_ref H a s = (Inr a, s)"
  by (simp add: get_cached_ref_def canonical_def)


subsection \<open>Unions and intersections of arrays\<close>

lemma inplace_same_length: "length b = length a \<Longrightarrow> inplace f a b = Inr (map2 f a b)"
  by (simp add: inplace_def)

lemma binop_same_length: "length b = length a \<Longrightarrow> binop f a b = Inr (map2 f a b)"
  by (simp add: binop_def)

lemma length_unions [simp]: "length (unions N CV S) = N"
  by (simp add: unions_def)

lemma length_and_of_unions [simp]: "length (and_of_unions N FV RV F R) = N"
  by (simp add: and_of_unions_def)

lemma nth_unions: "i < N \<Longrightarrow> unions N CV S ! i = (\<exists>n \<in> S. \<exists>c. CV n = Some c \<and> c ! i)"
  by (simp add: unions_def)

lemma nth_and_of_unions:
  "i < N \<Longrightarrow> and_of_unions N FV RV F R ! i
     = ((\<exists>f \<in> F. \<exists>c. FV f = Some c \<and> c ! i) \<and> (\<exists>r \<in> R. \<exists>c. RV r = Some c \<and> c ! i))"
  by (simp add: and_of_unions_def nth_unions)

lemma unions_single: "CV n = Some c \<Longrightarrow> length c = N \<Longrightarrow> unions N CV {n} = c"
  by (auto simp: unions_def intro: nth_equalityI)

lemma unions_insert:
  "CV n = Some c \<Longrightarrow> length c = N \<Longrightarrow> unions N CV (insert n S) = map2 (\<or>) c (unions N CV S)"
  by (rule nth_equalityI) (auto simp: nth_unions)

lemma unions_insert':
  "CV n = Some c \<Longrightarrow> length c = N \<Longrightarrow> unions N CV (insert n S) = map2 (\<or>) (unions N CV S) c"
  by (rule nth_equalityI) (auto simp: nth_unions)

text \<open>
  The loop of \<open>_union_arrays\<close> over arrays of one length: it fails only with a name
  that has no array, and it returns the union of what it has and what it reads.
\<close>

lemma union_loop_result:
  assumes "\<forall>n a. m n = Some a \<longrightarrow> length (hp ! a) = N"
    and "\<forall>n. CV n = map_option (\<lambda>a. hp ! a) (m n)"
  shows "length acc = N \<Longrightarrow>
         (case union_loop hp m acc xs of
            Inl e \<Rightarrow> \<not> set xs \<subseteq> dom m
          | Inr r \<Rightarrow> set xs \<subseteq> dom m \<and> r = map2 (\<or>) acc (unions N CV (set xs)))"
proof (induction xs arbitrary: acc)
  case Nil
  then show ?case by (auto simp: unions_def intro: nth_equalityI)
next
  case (Cons x xs)
  show ?case
  proof (cases "m x")
    case None
    then show ?thesis by (auto simp: dom_def)
  next
    case (Some a)
    have l: "length (hp ! a) = N" using assms(1) Some by blast
    have c: "CV x = Some (hp ! a)" using assms(2) Some by simp
    let ?acc = "map2 (\<or>) acc (hp ! a)"
    have la: "length ?acc = N" using l Cons.prems by simp
    have step: "union_loop hp m acc (x # xs) = union_loop hp m ?acc xs"
      using Some l Cons.prems by (simp add: inplace_same_length)
    have eq: "map2 (\<or>) ?acc (unions N CV (set xs)) = map2 (\<or>) acc (unions N CV (set (x # xs)))"
      using l Cons.prems c by (intro nth_equalityI) (auto simp: nth_unions)
    show ?thesis
      using Cons.IH [OF la] Some unfolding step by (auto simp: eq split: sum.splits)
  qed
qed

lemma union_arrays_result:
  assumes "\<forall>n a. m n = Some a \<longrightarrow> length (hp ! a) = N"
    and "\<forall>n. CV n = map_option (\<lambda>a. hp ! a) (m n)"
    and "xs \<noteq> []"
  shows "case union_arrays hp m (Frozenset xs) of
           Inl e \<Rightarrow> \<not> set xs \<subseteq> dom m
         | Inr r \<Rightarrow> set xs \<subseteq> dom m \<and> r = unions N CV (set xs)"
proof (cases xs)
  case Nil
  then show ?thesis using assms(3) by simp
next
  case (Cons x rest)
  show ?thesis
  proof (cases "m x")
    case None
    then show ?thesis using Cons by (auto simp: union_arrays_def dom_def)
  next
    case (Some a)
    have l: "length (hp ! a) = N" using assms(1) Some by blast
    have c: "CV x = Some (hp ! a)" using assms(2) Some by simp
    have u: "union_arrays hp m (Frozenset xs) = union_loop hp m (hp ! a) rest"
      using Cons Some by (simp add: union_arrays_def)
    have eq: "map2 (\<or>) (hp ! a) (unions N CV (set rest)) = unions N CV (set xs)"
      using unions_insert [of CV x "hp ! a" N "set rest"] c l Cons by simp
    show ?thesis
      using union_loop_result [OF assms(1,2) l, of rest] Some Cons unfolding u
      by (auto simp: eq split: sum.splits)
  qed
qed

subsection \<open>Seed maps\<close>

lemma dict_ok_empty: "dict_ok empty_seed_map can good"
  by (simp add: dict_ok_def empty_seed_map_def)

lemma dict_okI:
  assumes "\<And>k1 d. outer m k1 = Some d \<Longrightarrow> d < length (dicts m)"
    and "\<And>k1 k1' d. outer m k1 = Some d \<Longrightarrow> outer m k1' = Some d \<Longrightarrow> members k1 = members k1'"
    and "\<And>k1 k2 d a. outer m k1 = Some d \<Longrightarrow> (dicts m ! d) k2 = Some a \<Longrightarrow> can a"
    and "\<And>k1 R d a. outer m k1 = Some d \<Longrightarrow> (dicts m ! d) (KSet R) = Some a \<Longrightarrow> good (members k1) R a"
  shows "dict_ok m can good"
  unfolding dict_ok_def using assms by blast

lemma dict_ok_bound: "dict_ok m can good \<Longrightarrow> outer m k1 = Some d \<Longrightarrow> d < length (dicts m)"
  unfolding dict_ok_def by blast

lemma dict_ok_shared:
  "dict_ok m can good \<Longrightarrow> outer m k1 = Some d \<Longrightarrow> outer m k1' = Some d \<Longrightarrow> members k1 = members k1'"
  unfolding dict_ok_def by blast

lemma dict_ok_can: "dict_ok m can good \<Longrightarrow> outer m k1 = Some d \<Longrightarrow> (dicts m ! d) k2 = Some a \<Longrightarrow> can a"
  unfolding dict_ok_def by blast

lemma dict_ok_good:
  "dict_ok m can good \<Longrightarrow> outer m k1 = Some d \<Longrightarrow> (dicts m ! d) (KSet R) = Some a \<Longrightarrow> good (members k1) R a"
  unfolding dict_ok_def by blast

text \<open>
  A new inner dictionary under keys that stand for the same names: the keys of \<open>ks\<close>
  point to the new dictionary, which is empty, and the other keys point where they did.
\<close>

lemma dict_ok_fresh:
  assumes ok: "dict_ok m can good"
    and out: "\<And>k. outer m' k = (if k \<in> ks then Some (length (dicts m)) else outer m k)"
    and dic: "dicts m' = dicts m @ [Map.empty]"
    and same: "\<And>k k'. k \<in> ks \<Longrightarrow> k' \<in> ks \<Longrightarrow> members k = members k'"
  shows "dict_ok m' can good"
proof (rule dict_okI)
  fix k1 d
  assume "outer m' k1 = Some d"
  then show "d < length (dicts m')"
    using out [of k1] dic dict_ok_bound [OF ok, of k1 d] by (auto split: if_splits)
next
  fix k1 k1' d
  assume a: "outer m' k1 = Some d" "outer m' k1' = Some d"
  show "members k1 = members k1'"
  proof (cases "k1 \<in> ks")
    case True
    then have d: "d = length (dicts m)" using a(1) out [of k1] by simp
    have "k1' \<in> ks"
    proof (rule ccontr)
      assume "k1' \<notin> ks"
      then have "outer m k1' = Some d" using a(2) out [of k1'] by simp
      then show False using dict_ok_bound [OF ok] d by fastforce
    qed
    with True show ?thesis by (rule same)
  next
    case False
    then have o: "outer m k1 = Some d" using a(1) out [of k1] by simp
    then have lt: "d < length (dicts m)" using dict_ok_bound [OF ok] by blast
    have "k1' \<notin> ks" using a(2) out [of k1'] lt by auto
    then have "outer m k1' = Some d" using a(2) out [of k1'] by simp
    with o show ?thesis using dict_ok_shared [OF ok] by blast
  qed
next
  fix k1 k2 d a
  assume a: "outer m' k1 = Some d" "(dicts m' ! d) k2 = Some a"
  have "k1 \<notin> ks" using a out [of k1] dic by (auto simp: nth_append)
  then have o: "outer m k1 = Some d" using a(1) out [of k1] by simp
  then have "d < length (dicts m)" using dict_ok_bound [OF ok] by blast
  then have "(dicts m ! d) k2 = Some a" using a(2) dic by (simp add: nth_append)
  with o show "can a" using dict_ok_can [OF ok] by blast
next
  fix k1 R d a
  assume a: "outer m' k1 = Some d" "(dicts m' ! d) (KSet R) = Some a"
  have "k1 \<notin> ks" using a out [of k1] dic by (auto simp: nth_append)
  then have o: "outer m k1 = Some d" using a(1) out [of k1] by simp
  then have "d < length (dicts m)" using dict_ok_bound [OF ok] by blast
  then have "(dicts m ! d) (KSet R) = Some a" using a(2) dic by (simp add: nth_append)
  with o show "good (members k1) R a" using dict_ok_good [OF ok] by blast
qed

lemma dict_ok_new_dict:
  assumes "dict_ok m can good"
  shows "dict_ok (new_dict k1 m) can good"
  by (rule dict_ok_fresh [OF assms, where ks = "{k1}"]) (simp_all add: new_dict_def)

lemma dict_ok_new_shared_dict:
  assumes "dict_ok m can good"
  shows "dict_ok (new_shared_dict f m) can good"
  by (rule dict_ok_fresh [OF assms, where ks = "{KStr f, KSet {f}}"])
     (auto simp: new_shared_dict_def)

lemma dict_ok_ensure_dict: "dict_ok m can good \<Longrightarrow> dict_ok (ensure_dict k1 m) can good"
  by (simp add: ensure_dict_def dict_ok_new_dict)

lemma dict_ok_dict_store:
  assumes ok: "dict_ok m can good" and "can a"
    and g: "\<And>k1 R. outer m k1 = Some d \<Longrightarrow> k2 = KSet R \<Longrightarrow> good (members k1) R a"
  shows "dict_ok (dict_store d k2 a m) can good"
proof (rule dict_okI)
  fix k1 d'
  assume "outer (dict_store d k2 a m) k1 = Some d'"
  then show "d' < length (dicts (dict_store d k2 a m))"
    using dict_ok_bound [OF ok, of k1 d'] by (simp add: dict_store_def)
next
  fix k1 k1' d'
  assume "outer (dict_store d k2 a m) k1 = Some d'" "outer (dict_store d k2 a m) k1' = Some d'"
  then show "members k1 = members k1'"
    using dict_ok_shared [OF ok, of k1 d' k1'] by (simp add: dict_store_def)
next
  fix k1 k d' b
  assume a: "outer (dict_store d k2 a m) k1 = Some d'" "(dicts (dict_store d k2 a m) ! d') k = Some b"
  have o: "outer m k1 = Some d'" using a(1) by (simp add: dict_store_def)
  then have lt: "d' < length (dicts m)" using dict_ok_bound [OF ok] by blast
  show "can b"
  proof (cases "d' = d \<and> k = k2")
    case True
    then have "b = a" using a(2) lt by (simp add: dict_store_def)
    then show ?thesis using assms(2) by simp
  next
    case False
    then have "(dicts m ! d') k = Some b" using a(2) lt
      by (cases "d' = d") (auto simp: dict_store_def)
    with o show ?thesis using dict_ok_can [OF ok] by blast
  qed
next
  fix k1 R d' b
  assume a: "outer (dict_store d k2 a m) k1 = Some d'" "(dicts (dict_store d k2 a m) ! d') (KSet R) = Some b"
  have o: "outer m k1 = Some d'" using a(1) by (simp add: dict_store_def)
  then have lt: "d' < length (dicts m)" using dict_ok_bound [OF ok] by blast
  show "good (members k1) R b"
  proof (cases "d' = d \<and> KSet R = k2")
    case True
    then have "b = a" using a(2) lt by (auto simp: dict_store_def)
    then show ?thesis using g [of k1 R] o True by auto
  next
    case False
    then have "(dicts m ! d') (KSet R) = Some b" using a(2) lt
      by (cases "d' = d") (auto simp: dict_store_def)
    with o show ?thesis using dict_ok_good [OF ok] by blast
  qed
qed

lemma dict_ok_store2:
  assumes "dict_ok m can good" and "can a" and "\<And>R. k2 = KSet R \<Longrightarrow> good (members k1) R a"
  shows "dict_ok (store2 k1 k2 a m) can good"
proof (cases "outer m k1")
  case None
  then show ?thesis using assms(1) by (simp add: store2_def)
next
  case (Some d)
  have "dict_ok (dict_store d k2 a m) can good"
  proof (rule dict_ok_dict_store [OF assms(1,2)])
    fix k1' R
    assume "outer m k1' = Some d" and k2: "k2 = KSet R"
    then have "members k1' = members k1" using dict_ok_shared [OF assms(1)] Some by blast
    then show "good (members k1') R a" using assms(3) [OF k2] by simp
  qed
  then show ?thesis using Some by (simp add: store2_def)
qed

lemma lookup2_store2:
  assumes "dict_ok m can good" and "outer m k1 \<noteq> None"
  shows "lookup2 (store2 k1 k2 a m) k1 k2 = Some a"
proof -
  from assms(2) obtain d where d: "outer m k1 = Some d" by auto
  then have "d < length (dicts m)" using dict_ok_bound [OF assms(1)] by blast
  then show ?thesis using d by (simp add: lookup2_def store2_def dict_store_def)
qed

lemma outer_ensure_dict: "outer (ensure_dict k1 m) k1 \<noteq> None"
  by (simp add: ensure_dict_def new_dict_def)

text \<open>Storing under a pair of keys without an entry leaves the other entries as they are.\<close>

lemma lookup2_ensure_dict:
  assumes "dict_ok m can good"
  shows "lookup2 (ensure_dict k1 m) k k' = lookup2 m k k'"
proof (cases "outer m k1")
  case (Some d)
  then show ?thesis by (simp add: ensure_dict_def)
next
  case None
  show ?thesis
  proof (cases "outer m k")
    case None
    then show ?thesis using \<open>outer m k1 = None\<close>
      by (auto simp: lookup2_def ensure_dict_def new_dict_def)
  next
    case (Some d)
    then have "d < length (dicts m)" "k \<noteq> k1"
      using dict_ok_bound [OF assms] \<open>outer m k1 = None\<close> by auto
    then show ?thesis using Some \<open>outer m k1 = None\<close>
      by (simp add: lookup2_def ensure_dict_def new_dict_def nth_append)
  qed
qed

lemma lookup2_store2_other:
  assumes "dict_ok m can good" and "lookup2 m k1 k2 = None" and "lookup2 m k k' = Some b"
  shows "lookup2 (store2 k1 k2 a m) k k' = Some b"
proof (cases "outer m k1")
  case None
  then show ?thesis using assms(3) by (simp add: store2_def)
next
  case (Some d)
  from assms(3) obtain d' where d': "outer m k = Some d'" and b: "(dicts m ! d') k' = Some b"
    by (auto simp: lookup2_def split: option.splits)
  have lt: "d < length (dicts m)" "d' < length (dicts m)"
    using dict_ok_bound [OF assms(1)] Some d' by blast+
  have "d' = d \<Longrightarrow> k' \<noteq> k2" using assms(2) Some b by (auto simp: lookup2_def)
  then show ?thesis using Some d' b lt
    by (auto simp: lookup2_def store2_def dict_store_def nth_list_update)
qed


subsection \<open>Writing a seed map\<close>

lemma set_seed_map_fields [simp]:
  "heap (set_seed_map k m s) = heap s"
  "rel_array_cache (set_seed_map k m s) = rel_array_cache s"
  "single_seed2relvars (set_seed_map k m s) = single_seed2relvars s"
  "single_seed2relsys (set_seed_map k m s) = single_seed2relsys s"
  "current_rel_varray (set_seed_map k m s) = current_rel_varray s"
  "current_rel_sarray (set_seed_map k m s) = current_rel_sarray s"
  "nonlinear_sets (set_seed_map k m s) = nonlinear_sets s"
  "all_seed_vars (set_seed_map k m s) = all_seed_vars s"
  "seed_vars (set_seed_map k m s) = seed_vars s"
  "active (set_seed_map k m s) = active s"
  by (cases k; simp add: set_seed_map_def)+

lemma seed_map_of_set_seed_map [simp]:
  "seed_map_of k' (set_seed_map k m s) = (if k' = k then m else seed_map_of k' s)"
  by (cases k; cases k') (simp_all add: seed_map_of_def set_seed_map_def)

lemma single_map_set_seed_map [simp]: "single_map k' io (set_seed_map k m s) = single_map k' io s"
  by (cases k'; cases io) (simp_all add: single_map_def single_of_def)

lemma canonical_set_seed_map [simp]: "canonical H (set_seed_map k m s) = canonical H s"
  by (rule ext) (simp add: canonical_def)

lemma cache_ok_set_seed_map [simp]: "cache_ok H (set_seed_map k m s) = cache_ok H s"
  by (simp add: cache_ok_def)

lemma singles_wf_set_seed_map [simp]: "singles_wf H N (set_seed_map k m s) = singles_wf H N s"
  by (simp add: singles_wf_def)

lemma single_content_set_seed_map [simp]:
  "single_content k' io (set_seed_map k m s) = single_content k' io s"
  by (simp add: single_content_def)

lemma entries_ok_set_seed_map:
  assumes "entries_ok H N C s"
    and "dict_ok m (canonical H s) (\<lambda>F R a. heap s ! a = and_of_unions (N k) (C k Fwd) (C k Rev) F R)"
  shows "entries_ok H N C (set_seed_map k m s)"
  using assms by (simp add: entries_ok_def)

lemma entries_ok_dict:
  "entries_ok H N C s \<Longrightarrow>
   dict_ok (seed_map_of k s) (canonical H s) (\<lambda>F R a. heap s ! a = and_of_unions (N k) (C k Fwd) (C k Rev) F R)"
  by (simp add: entries_ok_def)

lemma entries_ok_single:
  assumes "entries_ok H N C s" and "single_map k io s n = Some a"
  shows "canonical H s a" and "length (heap s ! a) = N k" and "C k io n = Some (heap s ! a)"
proof -
  show "canonical H s a" "length (heap s ! a) = N k"
    using assms by (auto simp: entries_ok_def singles_wf_def)
  have "single_content k io s n = C k io n" using assms(1) by (simp add: entries_ok_def)
  then show "C k io n = Some (heap s ! a)" using assms(2) by (simp add: single_content_def)
qed

lemma entries_ok_content: "entries_ok H N C s \<Longrightarrow> C k io n = map_option (\<lambda>a. heap s ! a) (single_map k io s n)"
proof -
  assume "entries_ok H N C s"
  then have "single_content k io s n = C k io n" by (simp add: entries_ok_def)
  then show ?thesis by (simp add: single_content_def)
qed

lemma entries_ok_dom: "entries_ok H N C s \<Longrightarrow> dom (C k io) = dom (single_map k io s)"
  by (auto simp: entries_ok_content dom_def)

lemma map_freeD: "map_free P \<Longrightarrow> P s \<Longrightarrow> P (set_seed_map k m s)"
  by (simp add: map_free_def)

subsection \<open>\<open>_combine_relevance\<close> and \<open>_get_rel_array\<close> on frozensets\<close>

lemma combine_relevance_unfold:
  "combine_relevance H fm F rm R s
   = (case union_arrays (heap s) fm F of
        Inl e \<Rightarrow> (Inl e, s)
      | Inr fa \<Rightarrow>
          (case union_arrays (heap s) rm R of
             Inl e \<Rightarrow> (Inl e, s)
           | Inr ra \<Rightarrow>
               (case inplace (\<and>) fa ra of
                  Inl e \<Rightarrow> (Inl e, s)
                | Inr fa' \<Rightarrow> get_cached_array H fa' s)))"
  by (simp add: combine_relevance_def seq_def gets_def lift_def split: sum.splits)

lemma triple_combine_relevance:
  assumes "inj H" and "stable H P" and "F \<noteq> []" and "R \<noteq> []"
  shows "triple (\<lambda>s. sound H N C s \<and> P s \<and> fm = single_map k Fwd s \<and> rm = single_map k Rev s)
           (combine_relevance H fm (Frozenset F) rm (Frozenset R))
           (\<lambda>a s. sound H N C s \<and> P s \<and> canonical H s a
                  \<and> heap s ! a = and_of_unions (N k) (C k Fwd) (C k Rev) (set F) (set R))
           (\<lambda>s. sound H N C s \<and> P s \<and> \<not> (set F \<subseteq> dom (C k Fwd) \<and> set R \<subseteq> dom (C k Rev)))"
proof -
  let ?spec = "and_of_unions (N k) (C k Fwd) (C k Rev) (set F) (set R)"
  have st: "stable H (\<lambda>s. entries_ok H N C s \<and> P s)"
    using stable_entries_ok assms(2) by (rule stable_conj)
  {
    fix s r s'
    assume pre: "sound H N C s \<and> P s \<and> fm = single_map k Fwd s \<and> rm = single_map k Rev s"
      and run: "combine_relevance H fm (Frozenset F) rm (Frozenset R) s = (r, s')"
    have e: "entries_ok H N C s" and c: "cache_ok H s" using pre by (auto simp: sound_def)
    have lf: "\<forall>n a. fm n = Some a \<longrightarrow> length (heap s ! a) = N k"
      and lr: "\<forall>n a. rm n = Some a \<longrightarrow> length (heap s ! a) = N k"
      using pre entries_ok_single(2) [OF e] by auto
    have cf: "\<forall>n. C k Fwd n = map_option (\<lambda>a. heap s ! a) (fm n)"
      and cr: "\<forall>n. C k Rev n = map_option (\<lambda>a. heap s ! a) (rm n)"
      using entries_ok_content [OF e] pre by auto
    have df: "dom (C k Fwd) = dom fm" and dr: "dom (C k Rev) = dom rm"
      using entries_ok_dom [OF e] pre by auto
    note uf = union_arrays_result [OF lf cf assms(3)]
    note ur = union_arrays_result [OF lr cr assms(4)]
    have "case r of
            Inl e \<Rightarrow> sound H N C s' \<and> P s' \<and> \<not> (set F \<subseteq> dom (C k Fwd) \<and> set R \<subseteq> dom (C k Rev))
          | Inr a \<Rightarrow> sound H N C s' \<and> P s' \<and> canonical H s' a \<and> heap s' ! a = ?spec"
    proof (cases "union_arrays (heap s) fm (Frozenset F)")
      case (Inl err)
      then show ?thesis using uf run pre df by (auto simp: combine_relevance_unfold)
    next
      case fa: (Inr fa)
      show ?thesis
      proof (cases "union_arrays (heap s) rm (Frozenset R)")
        case (Inl err)
        then show ?thesis using ur fa run pre dr by (auto simp: combine_relevance_unfold)
      next
        case ra: (Inr ra)
        have fa_eq: "fa = unions (N k) (C k Fwd) (set F)" and ra_eq: "ra = unions (N k) (C k Rev) (set R)"
          using uf ur fa ra by auto
        have i: "inplace (\<and>) fa ra = Inr ?spec"
          by (simp add: fa_eq ra_eq inplace_same_length and_of_unions_def)
        have g: "get_cached_array H ?spec s = (r, s')"
          using run fa ra i by (simp add: combine_relevance_unfold)
        obtain a where r: "r = Inr a" using get_cached_array_grows [OF c g] by blast
        have "cache_ok H s' \<and> (entries_ok H N C s' \<and> P s') \<and> canonical H s' a \<and> heap s' ! a = ?spec"
          using triple_get_cached_array [OF assms(1) st, of ?spec "\<lambda>_. True"] c e pre g r
          by (auto dest!: triple_Inr)
        then show ?thesis using r by (simp add: sound_def)
      qed
    qed
  }
  then show ?thesis unfolding triple_def by blast
qed

lemma get_rel_array_unfold:
  "get_rel_array H k F R s
   = (case lookup2 (seed_map_of k s) (key_of F) (key_of R) of
        Some a \<Rightarrow> (Inr a, s)
      | None \<Rightarrow>
          (case combine_relevance H (single_map k Fwd s) F (single_map k Rev s) R s of
             (Inl e, s1) \<Rightarrow> (Inl e, s1)
           | (Inr a, s1) \<Rightarrow>
               (Inr a, set_seed_map k (store2 (key_of F) (key_of R) a (ensure_dict (key_of F) (seed_map_of k s1))) s1)))"
  by (simp add: get_rel_array_def seq_def gets_def ret_def modify_def single_map_def
      split: option.splits sum.splits prod.splits)

lemma triple_get_rel_array:
  assumes "inj H" and "stable H P" and "map_free P" and "F \<noteq> []" and "R \<noteq> []"
  shows "triple (\<lambda>s. sound H N C s \<and> P s)
           (get_rel_array H k (Frozenset F) (Frozenset R))
           (\<lambda>a s. sound H N C s \<and> P s \<and> canonical H s a
                  \<and> heap s ! a = and_of_unions (N k) (C k Fwd) (C k Rev) (set F) (set R)
                  \<and> lookup2 (seed_map_of k s) (KSet (set F)) (KSet (set R)) = Some a)
           (\<lambda>s. sound H N C s \<and> P s \<and> \<not> (set F \<subseteq> dom (C k Fwd) \<and> set R \<subseteq> dom (C k Rev)))"
proof -
  let ?spec = "and_of_unions (N k) (C k Fwd) (C k Rev) (set F) (set R)"
  let ?K1 = "KSet (set F)" and ?K2 = "KSet (set R)"
  {
    fix s r s'
    assume pre: "sound H N C s \<and> P s"
      and run: "get_rel_array H k (Frozenset F) (Frozenset R) s = (r, s')"
    have e: "entries_ok H N C s" using pre by (simp add: sound_def)
    note d = entries_ok_dict [OF e, of k]
    have "case r of
            Inl e \<Rightarrow> sound H N C s' \<and> P s' \<and> \<not> (set F \<subseteq> dom (C k Fwd) \<and> set R \<subseteq> dom (C k Rev))
          | Inr a \<Rightarrow> sound H N C s' \<and> P s' \<and> canonical H s' a \<and> heap s' ! a = ?spec
                     \<and> lookup2 (seed_map_of k s') ?K1 ?K2 = Some a"
    proof (cases "lookup2 (seed_map_of k s) ?K1 ?K2")
      case (Some a)
      then have r: "r = Inr a" "s' = s" using run by (auto simp: get_rel_array_unfold)
      from Some obtain dd where o: "outer (seed_map_of k s) ?K1 = Some dd"
        and i: "(dicts (seed_map_of k s) ! dd) ?K2 = Some a"
        by (auto simp: lookup2_def split: option.splits)
      have "canonical H s a" using dict_ok_can [OF d o i] .
      moreover have "heap s ! a = ?spec" using dict_ok_good [OF d o i] by simp
      ultimately show ?thesis using r pre Some by simp
    next
      case None
      obtain r1 s1 where cr: "combine_relevance H (single_map k Fwd s) (Frozenset F)
          (single_map k Rev s) (Frozenset R) s = (r1, s1)"
        by (cases "combine_relevance H (single_map k Fwd s) (Frozenset F) (single_map k Rev s) (Frozenset R) s")
      note t = triple_combine_relevance [OF assms(1,2,4,5), of N C "single_map k Fwd s" k "single_map k Rev s"]
      show ?thesis
      proof (cases r1)
        case (Inl err)
        then have "r = Inl err" "s' = s1" using run None cr by (auto simp: get_rel_array_unfold)
        then show ?thesis using triple_Inl [OF t _ cr [unfolded Inl]] pre by simp
      next
        case (Inr a)
        let ?m = "store2 ?K1 ?K2 a (ensure_dict ?K1 (seed_map_of k s1))"
        have r: "r = Inr a" "s' = set_seed_map k ?m s1"
          using run None cr Inr by (auto simp: get_rel_array_unfold)
        have post: "sound H N C s1 \<and> P s1 \<and> canonical H s1 a \<and> heap s1 ! a = ?spec"
          using triple_Inr [OF t _ cr [unfolded Inr]] pre by simp
        then have e1: "entries_ok H N C s1" by (simp add: sound_def)
        note d1 = dict_ok_ensure_dict [OF entries_ok_dict [OF e1, of k], of ?K1]
        have dm: "dict_ok ?m (canonical H s1)
                    (\<lambda>F R a. heap s1 ! a = and_of_unions (N k) (C k Fwd) (C k Rev) F R)"
          using d1 post by (intro dict_ok_store2) auto
        have "entries_ok H N C s'" unfolding r using e1 dm by (rule entries_ok_set_seed_map)
        moreover have "cache_ok H s'" using post r by (simp add: sound_def)
        moreover have "P s'" unfolding r using assms(3) post by (simp add: map_freeD)
        moreover have "lookup2 (seed_map_of k s') ?K1 ?K2 = Some a"
          unfolding r using lookup2_store2 [OF d1 outer_ensure_dict] by simp
        ultimately show ?thesis using r post by (simp add: sound_def)
      qed
    qed
  }
  then show ?thesis unfolding triple_def by blast
qed


subsection \<open>Fields that the invariant does not read\<close>

lemma sound_cong:
  assumes "heap s' = heap s" and "rel_array_cache s' = rel_array_cache s"
    and "seed_var_map s' = seed_var_map s" and "seed_sys_map s' = seed_sys_map s"
    and "single_seed2relvars s' = single_seed2relvars s"
    and "single_seed2relsys s' = single_seed2relsys s"
  shows "sound H N C s' = sound H N C s"
proof -
  have m: "seed_map_of k s' = seed_map_of k s" for k
    using assms by (cases k) (simp_all add: seed_map_of_def)
  have sm: "single_map k io s' = single_map k io s" for k io
    using assms by (cases k; cases io) (simp_all add: single_map_def single_of_def)
  have c: "canonical H s' = canonical H s" using assms by (intro ext) (simp add: canonical_def)
  have "cache_ok H s' = cache_ok H s" using assms by (simp add: cache_ok_def)
  moreover have "singles_wf H N s' = singles_wf H N s" using assms sm c by (simp add: singles_wf_def)
  moreover have "single_content k io s' = single_content k io s" for k io
    using assms sm by (simp add: single_content_def)
  ultimately show ?thesis using m c assms(1) by (simp add: sound_def entries_ok_def)
qed

lemma sound_update [simp]:
  "sound H N C (s\<lparr>seed_vars := sv\<rparr>) = sound H N C s"
  "sound H N C (s\<lparr>active := ac\<rparr>) = sound H N C s"
  "sound H N C (s\<lparr>current_rel_varray := cv\<rparr>) = sound H N C s"
  "sound H N C (s\<lparr>current_rel_sarray := cs\<rparr>) = sound H N C s"
  "sound H N C (s\<lparr>no_dv_responses := nd\<rparr>) = sound H N C s"
  "sound H N C (s\<lparr>nonlinear_sets := nl\<rparr>) = sound H N C s"
  by (rule sound_cong; simp)+

lemma canonical_update [simp]:
  "canonical H (s\<lparr>seed_vars := sv\<rparr>) = canonical H s"
  "canonical H (s\<lparr>active := ac\<rparr>) = canonical H s"
  "canonical H (s\<lparr>current_rel_varray := cv\<rparr>) = canonical H s"
  "canonical H (s\<lparr>current_rel_sarray := cs\<rparr>) = canonical H s"
  "canonical H (s\<lparr>no_dv_responses := nd\<rparr>) = canonical H s"
  "canonical H (s\<lparr>nonlinear_sets := nl\<rparr>) = canonical H s"
  by (rule ext; simp add: canonical_def)+

lemma refs_ok_update [simp]:
  "refs_ok H (s\<lparr>seed_vars := sv\<rparr>) = refs_ok H s"
  "refs_ok H (s\<lparr>active := ac\<rparr>) = refs_ok H s"
  "refs_ok H (s\<lparr>no_dv_responses := nd\<rparr>) = refs_ok H s"
  by (simp_all add: refs_ok_def)

lemma refs_ok_varray: "refs_ok H s \<Longrightarrow> canonical H s a \<Longrightarrow> refs_ok H (s\<lparr>current_rel_varray := Some a\<rparr>)"
  by (simp add: refs_ok_def)

lemma refs_ok_sarray: "refs_ok H s \<Longrightarrow> canonical H s a \<Longrightarrow> refs_ok H (s\<lparr>current_rel_sarray := Some a\<rparr>)"
  by (simp add: refs_ok_def)

lemma stable_field:
  "stable H (\<lambda>s. P (seed_vars s) (active s) (current_rel_varray s) (current_rel_sarray s)
                     (nonlinear_sets s) (all_seed_vars s))"
  by (rule stableI) (simp add: grows_fields)

lemma stable_refs_ok: "stable H (refs_ok H)"
proof (rule stableI)
  fix s s' :: "'a relevance"
  assume g: "grows s s'" and r: "refs_ok H s"
  note f = grows_fields [OF g]
  show "refs_ok H s'"
    using r grows_canonical [OF g] unfolding refs_ok_def f by blast
qed

lemma map_free_refs_ok: "map_free (refs_ok H)"
  by (simp add: map_free_def refs_ok_def)

lemma map_free_conj: "map_free P \<Longrightarrow> map_free Q \<Longrightarrow> map_free (\<lambda>s. P s \<and> Q s)"
  by (simp add: map_free_def)

lemma map_free_field:
  "map_free (\<lambda>s. P (seed_vars s) (active s) (current_rel_varray s) (current_rel_sarray s)
                    (nonlinear_sets s) (all_seed_vars s) (heap s) (rel_array_cache s))"
  by (simp add: map_free_def)

lemma map_free_canonical: "map_free (\<lambda>s. canonical H s a \<and> heap s ! a = c)"
  by (simp add: map_free_def)

subsection \<open>\<open>_set_seeds\<close>\<close>

text \<open>
  On two nonempty frozensets \<open>_set_seeds\<close> makes the specified combinations the current
  arrays of both kinds; it raises only when a seed has no array of its own.
\<close>

lemma triple_set_seeds:
  assumes "inj H"
  shows "triple (\<lambda>s. sound H N C s \<and> refs_ok H s)
           (set_seeds H (Frozenset F) (Frozenset R))
           (\<lambda>_ s. sound H N C s \<and> refs_ok H s \<and> seed_vars s = (Frozenset F, Frozenset R)
                  \<and> (F \<noteq> [] \<longrightarrow> R \<noteq> [] \<longrightarrow>
                       (\<exists>va sa. current_rel_varray s = Some va \<and> current_rel_sarray s = Some sa
                          \<and> heap s ! va = and_of_unions (N Var) (C Var Fwd) (C Var Rev) (set F) (set R)
                          \<and> heap s ! sa = and_of_unions (N Sys) (C Sys Fwd) (C Sys Rev) (set F) (set R))))
           (\<lambda>s. sound H N C s \<and> refs_ok H s
                 \<and> \<not> (\<forall>k. set F \<subseteq> dom (C k Fwd) \<and> set R \<subseteq> dom (C k Rev)))"
proof (cases "F \<noteq> [] \<and> R \<noteq> []")
  case False
  then have "set_seeds H (Frozenset F) (Frozenset R)
             = seq (modify (\<lambda>s. s\<lparr>seed_vars := (Frozenset F, Frozenset R)\<rparr>)) (\<lambda>_. ret ())"
    by (auto simp: set_seeds_def truthy_def)
  then show ?thesis using False
    by (auto intro!: triple_seq [where Q = "\<lambda>_ s. sound H N C s \<and> refs_ok H s \<and> seed_vars s = (Frozenset F, Frozenset R)"]
         triple_modify triple_ret)
next
  case True
  let ?sv = "(Frozenset F, Frozenset R)"
  let ?specV = "and_of_unions (N Var) (C Var Fwd) (C Var Rev) (set F) (set R)"
  let ?specS = "and_of_unions (N Sys) (C Sys Fwd) (C Sys Rev) (set F) (set R)"
  let ?P1 = "\<lambda>s. refs_ok H s \<and> seed_vars s = ?sv"
  let ?P2 = "\<lambda>va s. (refs_ok H s \<and> seed_vars s = ?sv \<and> current_rel_varray s = Some va)
                \<and> (canonical H s va \<and> heap s ! va = ?specV)"
  let ?E = "\<lambda>s. sound H N C s \<and> refs_ok H s \<and> \<not> (\<forall>k. set F \<subseteq> dom (C k Fwd) \<and> set R \<subseteq> dom (C k Rev))"
  have F: "F \<noteq> []" and R: "R \<noteq> []" using True by auto
  have st1: "stable H ?P1"
    by (intro stable_conj stable_refs_ok stable_field [where P = "\<lambda>sv _ _ _ _ _. sv = ?sv"])
  have mf1: "map_free ?P1"
    by (intro map_free_conj map_free_refs_ok map_free_field [where P = "\<lambda>sv _ _ _ _ _ _ _. sv = ?sv"])
  have st2: "stable H (?P2 va)" for va
    by (intro stable_conj stable_refs_ok stable_content
          stable_field [where P = "\<lambda>sv _ _ _ _ _. sv = ?sv"]
          stable_field [where P = "\<lambda>_ _ cv _ _ _. cv = Some va"])
  have mf2: "map_free (?P2 va)" for va
    by (intro map_free_conj map_free_refs_ok map_free_canonical
          map_free_field [where P = "\<lambda>sv _ _ _ _ _ _ _. sv = ?sv"]
          map_free_field [where P = "\<lambda>_ _ cv _ _ _ _ _. cv = Some va"])
  have body: "set_seeds H (Frozenset F) (Frozenset R)
      = seq (modify (\<lambda>s. s\<lparr>seed_vars := ?sv\<rparr>)) (\<lambda>_.
          seq (get_rel_array H Var (Frozenset F) (Frozenset R)) (\<lambda>va.
          seq (modify (\<lambda>s. s\<lparr>current_rel_varray := Some va\<rparr>)) (\<lambda>_.
          seq (get_rel_array H Sys (Frozenset F) (Frozenset R)) (\<lambda>sa.
               modify (\<lambda>s. s\<lparr>current_rel_sarray := Some sa\<rparr>)))))"
    using True by (simp add: set_seeds_def truthy_def)
  show ?thesis
    unfolding body
  proof (rule triple_seq [where Q = "\<lambda>_ s. sound H N C s \<and> ?P1 s"])
    show "triple (\<lambda>s. sound H N C s \<and> refs_ok H s) (modify (\<lambda>s. s\<lparr>seed_vars := ?sv\<rparr>))
            (\<lambda>_ s. sound H N C s \<and> ?P1 s) ?E"
      by (rule triple_modify) simp
  next
    fix u :: unit
    show "triple (\<lambda>s. sound H N C s \<and> ?P1 s)
            (seq (get_rel_array H Var (Frozenset F) (Frozenset R)) (\<lambda>va.
             seq (modify (\<lambda>s. s\<lparr>current_rel_varray := Some va\<rparr>)) (\<lambda>_.
             seq (get_rel_array H Sys (Frozenset F) (Frozenset R)) (\<lambda>sa.
                  modify (\<lambda>s. s\<lparr>current_rel_sarray := Some sa\<rparr>)))))
            (\<lambda>_ s. sound H N C s \<and> refs_ok H s \<and> seed_vars s = ?sv
                  \<and> (F \<noteq> [] \<longrightarrow> R \<noteq> [] \<longrightarrow>
                       (\<exists>va sa. current_rel_varray s = Some va \<and> current_rel_sarray s = Some sa
                          \<and> heap s ! va = ?specV \<and> heap s ! sa = ?specS))) ?E"
    proof (rule triple_seq [where Q = "\<lambda>va s. sound H N C s \<and> ?P1 s \<and> canonical H s va \<and> heap s ! va = ?specV"])
      show "triple (\<lambda>s. sound H N C s \<and> ?P1 s) (get_rel_array H Var (Frozenset F) (Frozenset R))
              (\<lambda>va s. sound H N C s \<and> ?P1 s \<and> canonical H s va \<and> heap s ! va = ?specV) ?E"
        by (rule triple_weaken [OF triple_get_rel_array [OF assms st1 mf1 F R, of N C Var]]) auto
    next
      fix va
      show "triple (\<lambda>s. sound H N C s \<and> ?P1 s \<and> canonical H s va \<and> heap s ! va = ?specV)
              (seq (modify (\<lambda>s. s\<lparr>current_rel_varray := Some va\<rparr>)) (\<lambda>_.
               seq (get_rel_array H Sys (Frozenset F) (Frozenset R)) (\<lambda>sa.
                    modify (\<lambda>s. s\<lparr>current_rel_sarray := Some sa\<rparr>))))
              (\<lambda>_ s. sound H N C s \<and> refs_ok H s \<and> seed_vars s = ?sv
                    \<and> (F \<noteq> [] \<longrightarrow> R \<noteq> [] \<longrightarrow>
                         (\<exists>va sa. current_rel_varray s = Some va \<and> current_rel_sarray s = Some sa
                            \<and> heap s ! va = ?specV \<and> heap s ! sa = ?specS))) ?E"
      proof (rule triple_seq [where Q = "\<lambda>_ s. sound H N C s \<and> ?P2 va s"])
        show "triple (\<lambda>s. sound H N C s \<and> ?P1 s \<and> canonical H s va \<and> heap s ! va = ?specV)
                (modify (\<lambda>s. s\<lparr>current_rel_varray := Some va\<rparr>))
                (\<lambda>_ s. sound H N C s \<and> ?P2 va s) ?E"
          by (rule triple_modify) (simp add: refs_ok_varray)
      next
        fix u' :: unit
        show "triple (\<lambda>s. sound H N C s \<and> ?P2 va s)
                (seq (get_rel_array H Sys (Frozenset F) (Frozenset R)) (\<lambda>sa.
                    modify (\<lambda>s. s\<lparr>current_rel_sarray := Some sa\<rparr>)))
                (\<lambda>_ s. sound H N C s \<and> refs_ok H s \<and> seed_vars s = ?sv
                    \<and> (F \<noteq> [] \<longrightarrow> R \<noteq> [] \<longrightarrow>
                         (\<exists>va sa. current_rel_varray s = Some va \<and> current_rel_sarray s = Some sa
                            \<and> heap s ! va = ?specV \<and> heap s ! sa = ?specS))) ?E"
        proof (rule triple_seq [where Q = "\<lambda>sa s. sound H N C s \<and> ?P2 va s \<and> canonical H s sa \<and> heap s ! sa = ?specS"])
          show "triple (\<lambda>s. sound H N C s \<and> ?P2 va s) (get_rel_array H Sys (Frozenset F) (Frozenset R))
                  (\<lambda>sa s. sound H N C s \<and> ?P2 va s \<and> canonical H s sa \<and> heap s ! sa = ?specS) ?E"
            by (rule triple_weaken [OF triple_get_rel_array [OF assms st2 mf2 F R, of N C va Sys]]) auto
        next
          fix sa
          show "triple (\<lambda>s. sound H N C s \<and> ?P2 va s \<and> canonical H s sa \<and> heap s ! sa = ?specS)
                  (modify (\<lambda>s. s\<lparr>current_rel_sarray := Some sa\<rparr>))
                  (\<lambda>_ s. sound H N C s \<and> refs_ok H s \<and> seed_vars s = ?sv
                    \<and> (F \<noteq> [] \<longrightarrow> R \<noteq> [] \<longrightarrow>
                         (\<exists>va sa. current_rel_varray s = Some va \<and> current_rel_sarray s = Some sa
                            \<and> heap s ! va = ?specV \<and> heap s ! sa = ?specS))) ?E"
            by (rule triple_modify) (simp add: refs_ok_sarray)
        qed
      qed
    qed
  qed
qed

end
